theory Spec2Isabelle
  imports Main "HOL-Library.AList" "HOL-Library.Sublist"
begin

section \<open>Values\<close>

text \<open>
  Both the base configuration (read from \<^verbatim>\<open>config.json\<close>) and the deployment manifest
  (the result of \<^verbatim>\<open>yaml.load\<close>) are plain JavaScript data. An object is an association
  list: a property that is assigned keeps its position, a new property goes to the end.
  The JavaScript value \<^verbatim>\<open>undefined\<close> is \<open>None\<close> of \<open>json option\<close>; \<^verbatim>\<open>null\<close> is \<open>JNull\<close>.
  Numbers are integers here (the only numeric manifest field is \<^verbatim>\<open>dimensions\<close>), and a
  string is a list of 8-bit characters, which agrees with JavaScript's strings on ASCII text.
\<close>

datatype json =
    JNull
  | JBool bool
  | JNum int
  | JStr string
  | JArr "json list"
  | JObj "(string \<times> json) list"

type_synonym path = "string list"

text \<open>
  \<open>lookup v p\<close> is the value found by following the property names \<open>p\<close> through nested
  objects, \<open>None\<close> when some step is missing or is not an object (the optional chain
  \<^verbatim>\<open>v?.a?.b\<close>). It is the notion of "the value at a field path" used in the statements.
\<close>

fun lookup :: "json \<Rightarrow> path \<Rightarrow> json option" where
  "lookup v [] = Some v"
| "lookup (JObj kvs) (k # ks) = (case map_of kvs k of None \<Rightarrow> None | Some w \<Rightarrow> lookup w ks)"
| "lookup _ (k # ks) = None"

text \<open>\<open>field d k\<close> is \<^verbatim>\<open>d?.k\<close>; it is also \<^verbatim>\<open>d.k\<close> wherever \<open>d\<close> is known to be an object.\<close>

fun field :: "json option \<Rightarrow> string \<Rightarrow> json option" where
  "field (Some (JObj kvs)) k = map_of kvs k"
| "field _ k = None"

text \<open>JavaScript truthiness of a value that may be \<^verbatim>\<open>undefined\<close> (\<^verbatim>\<open>!!v\<close>).\<close>

fun truthy :: "json option \<Rightarrow> bool" where
  "truthy None = False"
| "truthy (Some JNull) = False"
| "truthy (Some (JBool b)) = b"
| "truthy (Some (JNum n)) = (n \<noteq> 0)"
| "truthy (Some (JStr s)) = (s \<noteq> [])"
| "truthy (Some (JArr xs)) = True"
| "truthy (Some (JObj kvs)) = True"

section \<open>Regular expressions of the schema\<close>

text \<open>
  Every pattern of the schema is anchored at both ends and has no flags, so
  \<^verbatim>\<open>regex.test(s)\<close> asks whether the whole string matches. Patterns are terms of \<open>rx\<close>,
  matched by repeated derivatives. A character class is a list of inclusive ranges; \<open>RDot\<close>
  is \<^verbatim>\<open>.\<close>, any character but a line terminator.
\<close>

datatype rx =
    RNone
  | REmpty
  | RClass "(char \<times> char) list"
  | RDot
  | RSeq rx rx
  | RAlt rx rx
  | RStar rx

fun in_class :: "char \<Rightarrow> (char \<times> char) list \<Rightarrow> bool" where
  "in_class c [] = False"
| "in_class c ((lo, hi) # rs) =
     (((of_char lo :: nat) \<le> of_char c \<and> (of_char c :: nat) \<le> of_char hi) \<or> in_class c rs)"

fun rx_nullable :: "rx \<Rightarrow> bool" where
  "rx_nullable RNone = False"
| "rx_nullable REmpty = True"
| "rx_nullable (RClass rs) = False"
| "rx_nullable RDot = False"
| "rx_nullable (RSeq r s) = (rx_nullable r \<and> rx_nullable s)"
| "rx_nullable (RAlt r s) = (rx_nullable r \<or> rx_nullable s)"
| "rx_nullable (RStar r) = True"

fun rx_deriv :: "char \<Rightarrow> rx \<Rightarrow> rx" where
  "rx_deriv c RNone = RNone"
| "rx_deriv c REmpty = RNone"
| "rx_deriv c (RClass rs) = (if in_class c rs then REmpty else RNone)"
| "rx_deriv c RDot = (if c = CHR 0x0A \<or> c = CHR 0x0D then RNone else REmpty)"
| "rx_deriv c (RSeq r s) =
     (if rx_nullable r then RAlt (RSeq (rx_deriv c r) s) (rx_deriv c s)
      else RSeq (rx_deriv c r) s)"
| "rx_deriv c (RAlt r s) = RAlt (rx_deriv c r) (rx_deriv c s)"
| "rx_deriv c (RStar r) = RSeq (rx_deriv c r) (RStar r)"

fun rx_test :: "rx \<Rightarrow> string \<Rightarrow> bool" where
  "rx_test r [] = rx_nullable r"
| "rx_test r (c # cs) = rx_test (rx_deriv c r) cs"

text \<open>Builders: a literal text, a sequence, \<^verbatim>\<open>r+\<close>, \<^verbatim>\<open>r?\<close>, \<^verbatim>\<open>r{m,n}\<close> and \<^verbatim>\<open>r{m,}\<close>.\<close>

fun rx_lit :: "string \<Rightarrow> rx" where
  "rx_lit [] = REmpty"
| "rx_lit (c # cs) = RSeq (RClass [(c, c)]) (rx_lit cs)"

fun rx_seq :: "rx list \<Rightarrow> rx" where
  "rx_seq [] = REmpty"
| "rx_seq [r] = r"
| "rx_seq (r # rs) = RSeq r (rx_seq rs)"

definition rx_plus :: "rx \<Rightarrow> rx" where
  "rx_plus r = RSeq r (RStar r)"

definition rx_opt :: "rx \<Rightarrow> rx" where
  "rx_opt r = RAlt REmpty r"

fun rx_upto :: "nat \<Rightarrow> rx \<Rightarrow> rx" where
  "rx_upto 0 r = REmpty"
| "rx_upto (Suc n) r = rx_opt (RSeq r (rx_upto n r))"

fun rx_rep :: "nat \<Rightarrow> nat \<Rightarrow> rx \<Rightarrow> rx" where
  "rx_rep 0 n r = rx_upto n r"
| "rx_rep (Suc m) n r = RSeq r (rx_rep m (n - 1) r)"

fun rx_atleast :: "nat \<Rightarrow> rx \<Rightarrow> rx" where
  "rx_atleast 0 r = RStar r"
| "rx_atleast (Suc m) r = RSeq r (rx_atleast m r)"

definition digit :: rx where
  "digit = RClass [(CHR ''0'', CHR ''9'')]"

definition hex_lower :: rx where
  "hex_lower = RClass [(CHR ''a'', CHR ''f''), (CHR ''0'', CHR ''9'')]"

definition lower_num_hyphen :: rx where
  "lower_num_hyphen = RClass [(CHR ''a'', CHR ''z''), (CHR ''0'', CHR ''9''), (CHR ''-'', CHR ''-'')]"

definition alnum :: rx where
  "alnum = RClass [(CHR ''a'', CHR ''z''), (CHR ''A'', CHR ''Z''), (CHR ''0'', CHR ''9'')]"

definition alnum_hyphen :: rx where
  "alnum_hyphen = RClass [(CHR ''a'', CHR ''z''), (CHR ''A'', CHR ''Z''), (CHR ''0'', CHR ''9''),
     (CHR ''-'', CHR ''-'')]"

text \<open>\<^verbatim>\<open>/^vpc-[a-f0-9]{8,17}$/\<close>\<close>
definition re_vpcId :: rx where
  "re_vpcId = RSeq (rx_lit ''vpc-'') (rx_rep 8 17 hex_lower)"

text \<open>\<^verbatim>\<open>/^subnet-[a-f0-9]{8,17}$/\<close>\<close>
definition re_subnetId :: rx where
  "re_subnetId = RSeq (rx_lit ''subnet-'') (rx_rep 8 17 hex_lower)"

text \<open>\<^verbatim>\<open>/^vpce-[a-f0-9]+$/\<close>\<close>
definition re_vpce :: rx where
  "re_vpce = RSeq (rx_lit ''vpce-'') (rx_plus hex_lower)"

text \<open>\<^verbatim>\<open>/^(\d{1,3}\.){3}\d{1,3}$/\<close>\<close>
definition re_ip :: rx where
  "re_ip = RSeq (rx_rep 3 3 (RSeq (rx_rep 1 3 digit) (rx_lit ''.''))) (rx_rep 1 3 digit)"

text \<open>\<^verbatim>\<open>/^[a-zA-Z0-9_-]+$/\<close>\<close>
definition re_name :: rx where
  "re_name = rx_plus (RClass [(CHR ''a'', CHR ''z''), (CHR ''A'', CHR ''Z''), (CHR ''0'', CHR ''9''),
     (CHR ''_'', CHR ''_''), (CHR ''-'', CHR ''-'')])"

text \<open>\<^verbatim>\<open>/^arn:aws:secretsmanager:[a-z0-9-]+:\d{12}:secret:.+$/\<close>\<close>
definition re_secretArn :: rx where
  "re_secretArn = rx_seq [rx_lit ''arn:aws:secretsmanager:'', rx_plus lower_num_hyphen,
     rx_lit '':'', rx_rep 12 12 digit, rx_lit '':secret:'', rx_plus RDot]"

text \<open>\<^verbatim>\<open>/^[a-z0-9-]+$/\<close>\<close>
definition re_cognitoDomain :: rx where
  "re_cognitoDomain = rx_plus lower_num_hyphen"

text \<open>\<^verbatim>\<open>/^[a-z0-9]+$/\<close>\<close>
definition re_guardrailId :: rx where
  "re_guardrailId = rx_plus (RClass [(CHR ''a'', CHR ''z''), (CHR ''0'', CHR ''9'')])"

text \<open>\<^verbatim>\<open>/^[A-Z0-9]+$/\<close>\<close>
definition re_knowledgeBaseId :: rx where
  "re_knowledgeBaseId = rx_plus (RClass [(CHR ''A'', CHR ''Z''), (CHR ''0'', CHR ''9'')])"

text \<open>\<^verbatim>\<open>/^arn:aws:iam::\d{12}:role\/.+$/\<close>\<close>
definition re_roleArn :: rx where
  "re_roleArn = rx_seq [rx_lit ''arn:aws:iam::'', rx_rep 12 12 digit, rx_lit '':role/'', rx_plus RDot]"

text \<open>\<^verbatim>\<open>/^[a-zA-Z0-9._-]+$/\<close>\<close>
definition re_repositoryName :: rx where
  "re_repositoryName = rx_plus (RClass [(CHR ''a'', CHR ''z''), (CHR ''A'', CHR ''Z''),
     (CHR ''0'', CHR ''9''), (CHR ''.'', CHR ''.''), (CHR ''_'', CHR ''_''), (CHR ''-'', CHR ''-'')])"

text \<open>\<^verbatim>\<open>/^[a-zA-Z][a-zA-Z0-9-]*$/\<close>\<close>
definition re_prefix :: rx where
  "re_prefix = RSeq (RClass [(CHR ''a'', CHR ''z''), (CHR ''A'', CHR ''Z'')]) (RStar alnum_hyphen)"

text \<open>\<^verbatim>\<open>/^[a-z0-9][a-z0-9.-]*[a-z0-9]$/\<close>\<close>
definition re_bucketName :: rx where
  "re_bucketName = rx_seq [RClass [(CHR ''a'', CHR ''z''), (CHR ''0'', CHR ''9'')],
     RStar (RClass [(CHR ''a'', CHR ''z''), (CHR ''0'', CHR ''9''), (CHR ''.'', CHR ''.''),
       (CHR ''-'', CHR ''-'')]),
     RClass [(CHR ''a'', CHR ''z''), (CHR ''0'', CHR ''9'')]]"

text \<open>\<^verbatim>\<open>/^arn:aws:acm:[a-z0-9-]+:\d{12}:certificate\/[a-f0-9-]+$/\<close>\<close>
definition re_certificateArn :: rx where
  "re_certificateArn = rx_seq [rx_lit ''arn:aws:acm:'', rx_plus lower_num_hyphen, rx_lit '':'',
     rx_rep 12 12 digit, rx_lit '':certificate/'',
     rx_plus (RClass [(CHR ''a'', CHR ''f''), (CHR ''0'', CHR ''9''), (CHR ''-'', CHR ''-'')])]"

text \<open>\<^verbatim>\<open>/^([a-zA-Z0-9]([a-zA-Z0-9-]{0,61}[a-zA-Z0-9])?\.)+[a-zA-Z]{2,}$/\<close>\<close>
definition re_domain :: rx where
  "re_domain = RSeq
     (rx_plus (rx_seq [alnum, rx_opt (RSeq (rx_rep 0 61 alnum_hyphen) alnum), rx_lit ''.'']))
     (rx_atleast 2 (RClass [(CHR ''a'', CHR ''z''), (CHR ''A'', CHR ''Z'')]))"

section \<open>The validation library\<close>

text \<open>
  The schema is written with the zod library, version 3 (the loader reads
  \<^verbatim>\<open>error.errors\<close>). The library is a dependency and not part of the repository;
  \<open>z_parse\<close> follows its synchronous parser for the constructs the schema uses:
  \<^item> a parse returns a status (valid, dirty, aborted) and a value, and appends issues
    to one shared list;
  \<^item> a value of the wrong primitive type, an enum or a literal mismatch abort; a failed
    check (\<^verbatim>\<open>min\<close>, \<^verbatim>\<open>max\<close>, \<^verbatim>\<open>length\<close>, \<^verbatim>\<open>regex\<close>, \<^verbatim>\<open>url\<close>, \<^verbatim>\<open>email\<close>, \<^verbatim>\<open>positive\<close>)
    adds an issue and makes the result dirty, and the remaining checks still run;
  \<^item> \<^verbatim>\<open>ZodObject\<close> parses every key of its shape, in the order of the shape, then
    merges: aborted if some member aborted, dirty if some member is dirty; unknown keys
    are stripped;
  \<^item> \<^verbatim>\<open>ZodArray\<close> parses every element and merges likewise;
  \<^item> \<^verbatim>\<open>ZodUnion\<close> (\<^verbatim>\<open>.or\<close>) returns the first valid option, else the first dirty option
    with that option's issues, else aborts with one \<^verbatim>\<open>invalid_union\<close> issue;
  \<^item> \<^verbatim>\<open>ZodEffects\<close> (\<^verbatim>\<open>.refine\<close>) parses the inner schema first; when that aborted the
    refinement function is not called; otherwise it is called on the parsed value and a
    falsy result adds one \<^verbatim>\<open>custom\<close> issue at the given path below the current one.
  \<^verbatim>\<open>safeParse\<close> succeeds exactly when the final status is valid.
\<close>

datatype pseg = Key string | Idx nat

datatype zstatus = Valid | Dirty | Aborted

datatype issue_code =
    invalid_type
  | invalid_literal
  | invalid_union
  | invalid_enum_value
  | too_small
  | too_big
  | invalid_string
  | custom

text \<open>The message given in the schema, or the library's default text for the issue.\<close>

datatype zmsg = DefaultMsg | Msg string

record issue =
  code :: issue_code
  ipath :: "pseg list"
  message :: zmsg

datatype zcheck =
    Min nat zmsg
  | Max nat zmsg
  | Length nat zmsg
  | Regex rx zmsg
  | Url zmsg
  | Email zmsg

text \<open>
  \<open>ZNumber (Some msg)\<close> is \<^verbatim>\<open>z.number().positive(msg)\<close>; \<open>ZArray t (Some (n, msg))\<close> is
  \<^verbatim>\<open>z.array(t).min(n, msg)\<close>; \<open>ZRefine t f msg p\<close> is \<^verbatim>\<open>t.refine(f, {message: msg, path: p})\<close>.
\<close>

datatype ztype =
    ZString "zcheck list"
  | ZNumber "zmsg option"
  | ZBoolean
  | ZLiteral json
  | ZEnum "string list"
  | ZArray ztype "(nat \<times> zmsg) option"
  | ZObject "(string \<times> ztype) list"
  | ZOptional ztype
  | ZDefault ztype json
  | ZUnion "ztype list"
  | ZRefine ztype "json option \<Rightarrow> bool" zmsg "pseg list"

text \<open>
  What the library takes from its host: \<^verbatim>\<open>url()\<close> accepts what the platform's
  \<^verbatim>\<open>new URL(s)\<close> accepts, \<^verbatim>\<open>email()\<close> what the library's own e-mail pattern accepts, and
  the default error map gives the text of an issue that has no message of its own.
\<close>

record host =
  url_ok :: "string \<Rightarrow> bool"
  email_ok :: "string \<Rightarrow> bool"
  default_message :: "issue_code \<Rightarrow> pseg list \<Rightarrow> string"

type_synonym zresult = "zstatus \<times> json option \<times> issue list"

definition mk_issue :: "issue_code \<Rightarrow> pseg list \<Rightarrow> zmsg \<Rightarrow> issue" where
  "mk_issue c p msg = \<lparr>code = c, ipath = p, message = msg\<rparr>"

definition invalid :: "issue_code \<Rightarrow> pseg list \<Rightarrow> zresult" where
  "invalid c p = (Aborted, None, [mk_issue c p DefaultMsg])"

fun string_check :: "host \<Rightarrow> pseg list \<Rightarrow> string \<Rightarrow> zcheck \<Rightarrow> issue list" where
  "string_check H p s (Min n msg) = (if length s < n then [mk_issue too_small p msg] else [])"
| "string_check H p s (Max n msg) = (if length s > n then [mk_issue too_big p msg] else [])"
| "string_check H p s (Length n msg) =
     (if length s > n then [mk_issue too_big p msg]
      else if length s < n then [mk_issue too_small p msg] else [])"
| "string_check H p s (Regex r msg) = (if rx_test r s then [] else [mk_issue invalid_string p msg])"
| "string_check H p s (Url msg) = (if url_ok H s then [] else [mk_issue invalid_string p msg])"
| "string_check H p s (Email msg) = (if email_ok H s then [] else [mk_issue invalid_string p msg])"

definition dirty_if :: "issue list \<Rightarrow> zstatus" where
  "dirty_if is = (if is = [] then Valid else Dirty)"

text \<open>\<^verbatim>\<open>ParseStatus.mergeArray\<close> and \<^verbatim>\<open>ParseStatus.mergeObjectSync\<close>, run after every member
  has been parsed.\<close>

fun merge_status :: "zstatus \<Rightarrow> zstatus list \<Rightarrow> zstatus" where
  "merge_status st [] = st"
| "merge_status st (Aborted # rs) = Aborted"
| "merge_status st (Dirty # rs) = merge_status Dirty rs"
| "merge_status st (Valid # rs) = merge_status st rs"

definition merge_array :: "issue list \<Rightarrow> zresult list \<Rightarrow> zresult" where
  "merge_array own rs =
     (let st = merge_status (dirty_if own) (map fst rs);
          is = own @ concat (map (\<lambda>r. snd (snd r)) rs)
      in if st = Aborted then (Aborted, None, is)
         else (st, Some (JArr (concat (map (\<lambda>r. case fst (snd r) of None \<Rightarrow> [] | Some v \<Rightarrow> [v]) rs))), is))"

definition merge_object :: "(string \<times> zresult) list \<Rightarrow> zresult" where
  "merge_object prs =
     (let st = merge_status Valid (map (\<lambda>pr. fst (snd pr)) prs);
          is = concat (map (\<lambda>pr. snd (snd (snd pr))) prs)
      in if st = Aborted then (Aborted, None, is)
         else (st, Some (JObj (concat (map (\<lambda>pr. case fst (snd (snd pr)) of None \<Rightarrow> [] | Some v \<Rightarrow> [(fst pr, v)]) prs))), is))"

fun union_result :: "pseg list \<Rightarrow> zresult list \<Rightarrow> zresult" where
  "union_result p rs =
     (case find (\<lambda>r. fst r = Valid) rs of
        Some r \<Rightarrow> r
      | None \<Rightarrow> (case find (\<lambda>r. fst r = Dirty) rs of
                   Some r \<Rightarrow> r
                 | None \<Rightarrow> invalid invalid_union p))"

fun z_parse :: "host \<Rightarrow> ztype \<Rightarrow> pseg list \<Rightarrow> json option \<Rightarrow> zresult" where
  "z_parse H (ZString cs) p d =
     (case d of
        Some (JStr s) \<Rightarrow>
          (let is = concat (map (string_check H p s) cs) in (dirty_if is, d, is))
      | _ \<Rightarrow> invalid invalid_type p)"
| "z_parse H (ZNumber pos) p d =
     (case d of
        Some (JNum n) \<Rightarrow>
          (case pos of
             None \<Rightarrow> (Valid, d, [])
           | Some msg \<Rightarrow> if n \<le> 0 then (Dirty, d, [mk_issue too_small p msg]) else (Valid, d, []))
      | _ \<Rightarrow> invalid invalid_type p)"
| "z_parse H ZBoolean p d =
     (case d of Some (JBool b) \<Rightarrow> (Valid, d, []) | _ \<Rightarrow> invalid invalid_type p)"
| "z_parse H (ZLiteral v) p d =
     (if d = Some v then (Valid, d, []) else invalid invalid_literal p)"
| "z_parse H (ZEnum vs) p d =
     (case d of
        Some (JStr s) \<Rightarrow> if s \<in> set vs then (Valid, d, []) else invalid invalid_enum_value p
      | _ \<Rightarrow> invalid invalid_type p)"
| "z_parse H (ZArray t mn) p d =
     (case d of
        Some (JArr xs) \<Rightarrow>
          merge_array
            (case mn of
               None \<Rightarrow> []
             | Some (n, msg) \<Rightarrow> if length xs < n then [mk_issue too_small p msg] else [])
            (map (\<lambda>ix. z_parse H t (p @ [Idx (fst ix)]) (Some (snd ix))) (enumerate 0 xs))
      | _ \<Rightarrow> invalid invalid_type p)"
| "z_parse H (ZObject fs) p d =
     (case d of
        Some (JObj kvs) \<Rightarrow>
          merge_object (map (\<lambda>f. (fst f, z_parse H (snd f) (p @ [Key (fst f)]) (map_of kvs (fst f)))) fs)
      | _ \<Rightarrow> invalid invalid_type p)"
| "z_parse H (ZOptional t) p d = (if d = None then (Valid, None, []) else z_parse H t p d)"
| "z_parse H (ZDefault t v) p d = (if d = None then z_parse H t p (Some v) else z_parse H t p d)"
| "z_parse H (ZUnion ts) p d = union_result p (map (\<lambda>t. z_parse H t p d) ts)"
| "z_parse H (ZRefine t chk msg rp) p d =
     (case z_parse H t p d of
        (Aborted, v, is) \<Rightarrow> (Aborted, None, is)
      | (st, v, is) \<Rightarrow>
          if chk v then (st, v, is) else (Dirty, v, is @ [mk_issue custom (p @ rp) msg]))"

text \<open>\<^verbatim>\<open>schema.safeParse(data)\<close>: the parsed document, or the issues.\<close>

definition safeParse :: "host \<Rightarrow> ztype \<Rightarrow> json option \<Rightarrow> issue list + json option" where
  "safeParse H t d =
     (case z_parse H t [] d of
        (Valid, v, is) \<Rightarrow> Inr v
      | (st, v, is) \<Rightarrow> Inl is)"

section \<open>The schema of the deployment manifest\<close>

definition SupportedRegionSchema :: ztype where
  "SupportedRegionSchema = ZEnum
     [''af-south-1'', ''ap-east-1'', ''ap-northeast-1'', ''ap-northeast-2'', ''ap-northeast-3'',
      ''ap-south-1'', ''ap-south-2'', ''ap-southeast-1'', ''ap-southeast-2'', ''ap-southeast-3'',
      ''ap-southeast-4'', ''ca-central-1'', ''eu-central-1'', ''eu-central-2'', ''eu-north-1'',
      ''eu-south-1'', ''eu-south-2'', ''eu-west-1'', ''eu-west-2'', ''eu-west-3'',
      ''il-central-1'', ''me-central-1'', ''me-south-1'', ''sa-east-1'', ''us-east-1'',
      ''us-east-2'', ''us-west-1'', ''us-west-2'']"

subsection \<open>VPC\<close>

text \<open>\<^verbatim>\<open>v && v.length > 0\<close>\<close>

fun nonempty_list :: "json option \<Rightarrow> bool" where
  "nonempty_list (Some (JArr xs)) = (xs \<noteq> [])"
| "nonempty_list (Some (JStr s)) = (s \<noteq> [])"
| "nonempty_list _ = False"

text \<open>The refinement of \<^verbatim>\<open>VpcConfigSchema\<close>: if \<^verbatim>\<open>s3VpcEndpointIps\<close> is provided,
  \<^verbatim>\<open>s3VpcEndpointId\<close> must also be provided.\<close>

definition vpc_endpoint_rule :: "json option \<Rightarrow> bool" where
  "vpc_endpoint_rule data =
     (if nonempty_list (field data ''s3VpcEndpointIps'')
      then truthy (field data ''s3VpcEndpointId'')
      else True)"

definition VpcConfigObject :: ztype where
  "VpcConfigObject = ZObject
     [(''vpcId'', ZOptional (ZString
         [Regex re_vpcId (Msg ''Invalid VPC ID format. Expected: vpc-xxxxxxxx or vpc-xxxxxxxxxxxxxxxxx'')])),
      (''subnetIds'', ZOptional (ZArray
         (ZString [Regex re_subnetId (Msg ''Invalid subnet ID format. Expected: subnet-xxxxxxxx'')])
         (Some (1, Msg ''At least one subnet ID is required when specifying subnetIds'')))),
      (''executeApiVpcEndpointId'', ZOptional (ZString
         [Regex re_vpce (Msg ''Invalid VPC endpoint ID format. Expected: vpce-xxxxxxxx'')])),
      (''s3VpcEndpointId'', ZOptional (ZString
         [Regex re_vpce (Msg ''Invalid S3 VPC endpoint ID format. Expected: vpce-xxxxxxxx'')])),
      (''s3VpcEndpointIps'', ZOptional (ZArray
         (ZString [Regex re_ip (Msg ''Invalid IP address format. Expected: x.x.x.x'')])
         None))]"

definition VpcConfigSchema :: ztype where
  "VpcConfigSchema = ZRefine VpcConfigObject vpc_endpoint_rule
     (Msg ''s3VpcEndpointId is required when s3VpcEndpointIps is provided'')
     [Key ''s3VpcEndpointId'']"

subsection \<open>Cognito federation\<close>

text \<open>\<^verbatim>\<open>(url) => url.startsWith("https://")\<close>\<close>

definition starts_with_https :: "json option \<Rightarrow> bool" where
  "starts_with_https v = (case v of Some (JStr s) \<Rightarrow> take 8 s = ''https://'' | _ \<Rightarrow> False)"

definition CognitoFederationSAMLSchema :: ztype where
  "CognitoFederationSAMLSchema = ZObject
     [(''metadataDocumentUrl'',
         ZRefine (ZString [Url (Msg ''Invalid SAML metadata URL'')]) starts_with_https
           (Msg ''SAML metadata URL must use HTTPS'') [])]"

definition CognitoFederationOIDCSchema :: ztype where
  "CognitoFederationOIDCSchema = ZObject
     [(''OIDCClient'', ZString
         [Min 1 (Msg ''OIDC Client ID is required''),
          Max 255 (Msg ''OIDC Client ID must be at most 255 characters''),
          Regex re_name
            (Msg ''OIDC Client ID must contain only alphanumeric characters, hyphens, and underscores'')]),
      (''OIDCSecret'', ZString
         [Regex re_secretArn
            (Msg ''Invalid Secrets Manager ARN format. Expected: arn:aws:secretsmanager:region:account-id:secret:name'')]),
      (''OIDCIssuerURL'',
         ZRefine (ZString [Url (Msg ''Invalid OIDC Issuer URL'')]) starts_with_https
           (Msg ''OIDC Issuer URL must use HTTPS'') [])]"

definition saml_rule :: "json option \<Rightarrow> bool" where
  "saml_rule data =
     (if truthy (field data ''enabled'') \<and> field data ''customProviderType'' = Some (JStr ''SAML'')
      then truthy (field (field data ''customSAML'') ''metadataDocumentUrl'')
      else True)"

definition oidc_rule :: "json option \<Rightarrow> bool" where
  "oidc_rule data =
     (if truthy (field data ''enabled'') \<and> field data ''customProviderType'' = Some (JStr ''OIDC'')
      then truthy (field (field data ''customOIDC'') ''OIDCClient'')
         \<and> truthy (field (field data ''customOIDC'') ''OIDCSecret'')
         \<and> truthy (field (field data ''customOIDC'') ''OIDCIssuerURL'')
      else True)"

definition provider_name_rule :: "json option \<Rightarrow> bool" where
  "provider_name_rule data =
     (if truthy (field data ''enabled'') \<and> field data ''customProviderType'' \<noteq> Some (JStr ''later'')
      then truthy (field data ''customProviderName'')
      else True)"

definition CognitoFederationObject :: ztype where
  "CognitoFederationObject = ZObject
     [(''enabled'', ZOptional ZBoolean),
      (''autoRedirect'', ZOptional ZBoolean),
      (''customProviderName'', ZOptional (ZString
         [Min 1 (Msg ''Provider name is required when federation is enabled''),
          Max 32 (Msg ''Provider name must be at most 32 characters''),
          Regex re_name
            (Msg ''Provider name must contain only alphanumeric characters, hyphens, and underscores'')])),
      (''customProviderType'', ZOptional (ZEnum [''SAML'', ''OIDC'', ''later''])),
      (''cognitoDomain'', ZOptional (ZString
         [Regex re_cognitoDomain
            (Msg ''Cognito domain must contain only lowercase letters, numbers, and hyphens'')])),
      (''customSAML'', ZOptional CognitoFederationSAMLSchema),
      (''customOIDC'', ZOptional CognitoFederationOIDCSchema)]"

definition CognitoFederationSchema :: ztype where
  "CognitoFederationSchema =
     ZRefine
       (ZRefine
          (ZRefine CognitoFederationObject saml_rule
             (Msg ''SAML metadata URL is required when provider type is SAML'')
             [Key ''customSAML'', Key ''metadataDocumentUrl''])
          oidc_rule
          (Msg ''OIDC configuration (OIDCClient, OIDCSecret, OIDCIssuerURL) is required when provider type is OIDC'')
          [Key ''customOIDC''])
       provider_name_rule
       (Msg ''Provider name is required when federation is enabled'')
       [Key ''customProviderName'']"

subsection \<open>Bedrock guardrails\<close>

definition guardrails_rule :: "json option \<Rightarrow> bool" where
  "guardrails_rule data =
     (if truthy (field data ''enabled'')
      then truthy (field data ''identifier'') \<and> truthy (field data ''version'')
      else True)"

definition BedrockGuardrailsSchema :: ztype where
  "BedrockGuardrailsSchema =
     ZRefine
       (ZObject
          [(''enabled'', ZBoolean),
           (''identifier'', ZOptional (ZString
              [Regex re_guardrailId
                 (Msg ''Guardrail identifier must contain only lowercase alphanumeric characters'')])),
           (''version'', ZOptional (ZString []))])
       guardrails_rule
       (Msg ''Guardrail identifier and version are required when guardrails are enabled'')
       [Key ''identifier'']"

subsection \<open>RAG\<close>

definition ExternalKnowledgeBaseSchema :: ztype where
  "ExternalKnowledgeBaseSchema = ZObject
     [(''name'', ZString
         [Min 1 (Msg ''Knowledge Base name is required''),
          Regex re_name (Msg ''Name must contain only alphanumeric characters, hyphens, and underscores'')]),
      (''knowledgeBaseId'', ZString
         [Length 10 (Msg ''Knowledge Base ID must be exactly 10 characters''),
          Regex re_knowledgeBaseId (Msg ''Knowledge Base ID must be uppercase alphanumeric'')]),
      (''region'', ZOptional SupportedRegionSchema),
      (''roleArn'', ZOptional (ZString [Regex re_roleArn (Msg ''Invalid IAM role ARN format'')])),
      (''enabled'', ZDefault (ZOptional ZBoolean) (JBool True))]"

definition ModelConfigSchema :: ztype where
  "ModelConfigSchema = ZObject
     [(''provider'', ZEnum [''sagemaker'', ''bedrock'', ''openai'', ''nexus'']),
      (''name'', ZString [Min 1 (Msg ''Model name is required'')]),
      (''dimensions'', ZOptional (ZNumber (Some (Msg ''Dimensions must be a positive number'')))),
      (''default'', ZOptional ZBoolean)]"

definition rag_engine_rule :: "json option \<Rightarrow> bool" where
  "rag_engine_rule data =
     (if truthy (field data ''enabled'')
      then truthy (field (field (field data ''engines'') ''opensearch'') ''enabled'')
         \<or> truthy (field (field (field data ''engines'') ''knowledgeBase'') ''enabled'')
      else True)"

definition RagConfigSchema :: ztype where
  "RagConfigSchema =
     ZRefine
       (ZObject
          [(''enabled'', ZOptional ZBoolean),
           (''crossEncodingEnabled'', ZOptional ZBoolean),
           (''engines'', ZOptional (ZObject
              [(''opensearch'', ZOptional (ZObject [(''enabled'', ZBoolean)])),
               (''knowledgeBase'', ZOptional (ZObject
                  [(''enabled'', ZBoolean),
                   (''external'', ZOptional (ZArray ExternalKnowledgeBaseSchema None))]))])),
           (''embeddingsModels'', ZOptional (ZArray ModelConfigSchema None)),
           (''crossEncoderModels'', ZOptional (ZArray ModelConfigSchema None))])
       rag_engine_rule
       (Msg ''At least one RAG engine (OpenSearch or Knowledge Base) must be enabled when RAG is enabled'')
       [Key ''engines'']"

subsection \<open>Pipeline\<close>

text \<open>Must provide either \<^verbatim>\<open>existingRepositoryName\<close> or \<^verbatim>\<open>createNew\<close>, not both:
  \<^verbatim>\<open>!!data.existingRepositoryName !== !!data.createNew\<close>.\<close>

definition codecommit_choice_rule :: "json option \<Rightarrow> bool" where
  "codecommit_choice_rule data =
     (truthy (field data ''existingRepositoryName'') \<noteq> truthy (field data ''createNew''))"

definition new_repository_rule :: "json option \<Rightarrow> bool" where
  "new_repository_rule data =
     (if truthy (field data ''createNew'') then truthy (field data ''newRepositoryName'') else True)"

definition PipelineCodeCommitObject :: ztype where
  "PipelineCodeCommitObject = ZObject
     [(''existingRepositoryName'', ZOptional (ZString
         [Min 1 DefaultMsg, Max 100 DefaultMsg,
          Regex re_repositoryName
            (Msg ''Invalid CodeCommit repository name. Only alphanumeric, dots, hyphens, and underscores.'')])),
      (''createNew'', ZOptional ZBoolean),
      (''newRepositoryName'', ZOptional (ZString
         [Min 1 DefaultMsg, Max 100 DefaultMsg,
          Regex re_repositoryName
            (Msg ''Invalid CodeCommit repository name. Only alphanumeric, dots, hyphens, and underscores.'')])),
      (''seedOnCreate'', ZDefault (ZOptional ZBoolean) (JBool False))]"

definition PipelineCodeCommitSchema :: ztype where
  "PipelineCodeCommitSchema =
     ZRefine
       (ZRefine PipelineCodeCommitObject codecommit_choice_rule
          (Msg ''Provide either existingRepositoryName OR createNew: true, not both'') [])
       new_repository_rule
       (Msg ''newRepositoryName is required when createNew is true'')
       [Key ''newRepositoryName'']"

definition PipelineConfigSchema :: ztype where
  "PipelineConfigSchema = ZObject
     [(''enabled'', ZBoolean),
      (''codecommit'', PipelineCodeCommitSchema),
      (''branch'', ZDefault (ZString [Min 1 DefaultMsg]) (JStr ''main'')),
      (''requireApproval'', ZDefault (ZOptional ZBoolean) (JBool True)),
      (''notificationEmail'', ZOptional (ZString [Email (Msg ''Invalid email address'')]))]"

subsection \<open>The manifest\<close>

definition DeploymentManifestSchema :: ztype where
  "DeploymentManifestSchema = ZObject
     [(''prefix'', ZString
         [Min 1 (Msg ''Prefix is required''),
          Max 16 (Msg ''Prefix must be at most 16 characters''),
          Regex re_prefix
            (Msg ''Prefix must start with a letter and contain only letters, numbers, and hyphens'')]),
      (''enableWaf'', ZOptional ZBoolean),
      (''createCMKs'', ZOptional ZBoolean),
      (''advancedMonitoring'', ZOptional ZBoolean),
      (''disableS3AccessLogs'', ZOptional ZBoolean),
      (''logArchiveBucketName'', ZUnion
         [ZOptional (ZString
            [Min 3 (Msg ''S3 bucket name must be at least 3 characters''),
             Max 63 (Msg ''S3 bucket name must be at most 63 characters''),
             Regex re_bucketName
               (Msg ''Invalid S3 bucket name format. Must start and end with lowercase letter or number.'')]),
          ZLiteral (JStr [])]),
      (''privateWebsite'', ZOptional ZBoolean),
      (''certificate'', ZUnion
         [ZOptional (ZString [Regex re_certificateArn (Msg ''Invalid ACM certificate ARN format'')]),
          ZLiteral (JStr [])]),
      (''domain'', ZUnion
         [ZOptional (ZString [Regex re_domain (Msg ''Invalid domain format. Example: chat.example.com'')]),
          ZLiteral (JStr [])]),
      (''vpc'', ZOptional VpcConfigSchema),
      (''cognitoFederation'', ZOptional CognitoFederationSchema),
      (''bedrock'', ZOptional (ZObject [(''guardrails'', ZOptional BedrockGuardrailsSchema)])),
      (''rag'', ZOptional RagConfigSchema),
      (''pipeline'', ZOptional PipelineConfigSchema)]"

text \<open>
  \<^verbatim>\<open>formatValidationErrors\<close>: one line per issue, the path joined with dots (\<^verbatim>\<open>root\<close> when
  empty), then the message.
\<close>

definition show_digit :: "nat \<Rightarrow> char" where
  "show_digit n = char_of (of_char (CHR ''0'') + n)"

fun show_nat :: "nat \<Rightarrow> string" where
  "show_nat n = (if n < 10 then [show_digit n] else show_nat (n div 10) @ [show_digit (n mod 10)])"

fun show_pseg :: "pseg \<Rightarrow> string" where
  "show_pseg (Key k) = k"
| "show_pseg (Idx i) = show_nat i"

fun join :: "string \<Rightarrow> string list \<Rightarrow> string" where
  "join sep [] = []"
| "join sep [x] = x"
| "join sep (x # y # xs) = x @ sep @ join sep (y # xs)"

definition issue_text :: "host \<Rightarrow> issue \<Rightarrow> string" where
  "issue_text H e =
     (case message e of Msg s \<Rightarrow> s | DefaultMsg \<Rightarrow> default_message H (code e) (ipath e))"

definition format_line :: "host \<Rightarrow> issue \<Rightarrow> string" where
  "format_line H e =
     (let path = join ''.'' (map show_pseg (ipath e))
      in ''  - '' @ (if path = [] then ''root'' else path) @ '': '' @ issue_text H e)"

definition formatValidationErrors :: "host \<Rightarrow> issue list \<Rightarrow> string" where
  "formatValidationErrors H errors = join [CHR 0x0A] (map (format_line H) errors)"

text \<open>\<^verbatim>\<open>validateManifest\<close>, the entry point used by the tests.\<close>

definition validateManifest :: "host \<Rightarrow> json option \<Rightarrow> string + json option" where
  "validateManifest H manifest =
     (case safeParse H DeploymentManifestSchema manifest of
        Inr d \<Rightarrow> Inr d
      | Inl errors \<Rightarrow> Inl (formatValidationErrors H errors))"

section \<open>Property access as JavaScript performs it\<close>

text \<open>
  The two ways in which the merge can fail at run time: a \<^verbatim>\<open>TypeError\<close> (a property of
  \<^verbatim>\<open>undefined\<close> or \<^verbatim>\<open>null\<close> is read or written, or, the modules being compiled in strict
  mode, a property is created on a boolean, number or string), and \<open>NotJson\<close>: a named
  property is set on an array, which JavaScript allows and which leaves the JSON data
  model.
\<close>

datatype js_error = TypeError | NotJson

text \<open>
  \<open>js_prop v k\<close> is the expression \<^verbatim>\<open>v.k\<close>: it throws on \<^verbatim>\<open>undefined\<close> and \<^verbatim>\<open>null\<close>, gives
  the property of an object, and \<^verbatim>\<open>undefined\<close> on a boolean, number, string or array (none
  of the property names used by the loader is a built-in member of those).
  \<open>js_read v p\<close> is the chain \<^verbatim>\<open>v.a.b.c\<close>.
\<close>

fun js_prop :: "json option \<Rightarrow> string \<Rightarrow> js_error + json option" where
  "js_prop None k = Inl TypeError"
| "js_prop (Some JNull) k = Inl TypeError"
| "js_prop (Some (JObj kvs)) k = Inr (map_of kvs k)"
| "js_prop (Some _) k = Inr None"

fun js_read :: "json option \<Rightarrow> path \<Rightarrow> js_error + json option" where
  "js_read v [] = Inr v"
| "js_read v (k # ks) = (case js_prop v k of Inl e \<Rightarrow> Inl e | Inr w \<Rightarrow> js_read w ks)"

text \<open>\<open>js_write c p x\<close> is the assignment \<^verbatim>\<open>c.a.b = x\<close>, returning the updated \<open>c\<close>.\<close>

fun js_write :: "json \<Rightarrow> path \<Rightarrow> json \<Rightarrow> js_error + json" where
  "js_write c [] x = Inr x"
| "js_write (JObj kvs) [k] x = Inr (JObj (AList.update k x kvs))"
| "js_write (JArr xs) [k] x = Inl NotJson"
| "js_write _ [k] x = Inl TypeError"
| "js_write (JObj kvs) (k # ks) x =
     (case map_of kvs k of
        None \<Rightarrow> Inl TypeError
      | Some t \<Rightarrow> (case js_write t ks x of
                     Inl e \<Rightarrow> Inl e
                   | Inr t' \<Rightarrow> Inr (JObj (AList.update k t' kvs))))"
| "js_write _ (k # ks) x = Inl TypeError"

section \<open>The merge: \<^verbatim>\<open>applyManifestOverrides\<close>\<close>

text \<open>One call of \<^verbatim>\<open>logOverride(path, oldValue, newValue)\<close>; the path is kept as the list of
  property names that the source writes joined with dots.\<close>

record change =
  cpath :: path
  old_value :: "json option"
  new_value :: "json option"

record mstate =
  config :: json
  changes :: "change list"
  overrideCount :: nat

text \<open>
  The body of \<^verbatim>\<open>applyManifestOverrides\<close> is a sequence of blocks of five shapes:
  \<^item> \<open>Ovr p\<close>: \<^verbatim>\<open>if (manifest.p !== undefined) { logOverride("p", config.p, manifest.p);
    config.p = manifest.p; overrideCount++; }\<close>
  \<^item> \<open>OvrNonEmpty p\<close>: the same under the condition
    \<^verbatim>\<open>manifest.p !== undefined && manifest.p !== ""\<close>
  \<^item> \<open>Init p d\<close>: \<^verbatim>\<open>if (!config.p) { config.p = d; }\<close>
  \<^item> \<open>When g body\<close>: \<^verbatim>\<open>if (g) { body }\<close> for a test \<open>g\<close> of the manifest
  \<^item> \<open>ReplacePipeline\<close>: the block that logs and rebuilds \<^verbatim>\<open>config.pipeline\<close>.
\<close>

datatype guard =
    Present path
  | PresentChained path string

datatype step =
    Ovr path
  | OvrNonEmpty path
  | Init path json
  | When guard "step list"
  | ReplacePipeline

text \<open>\<open>Present p\<close> is \<^verbatim>\<open>manifest.p !== undefined\<close>; \<open>PresentChained p k\<close> is
  \<^verbatim>\<open>manifest.p?.k !== undefined\<close>.\<close>

fun eval_guard :: "json \<Rightarrow> guard \<Rightarrow> js_error + bool" where
  "eval_guard m (Present p) =
     (case js_read (Some m) p of Inl e \<Rightarrow> Inl e | Inr v \<Rightarrow> Inr (v \<noteq> None))"
| "eval_guard m (PresentChained p k) =
     (case js_read (Some m) p of
        Inl e \<Rightarrow> Inl e
      | Inr None \<Rightarrow> Inr False
      | Inr (Some JNull) \<Rightarrow> Inr False
      | Inr (Some v) \<Rightarrow> (case js_prop (Some v) k of Inl e \<Rightarrow> Inl e | Inr w \<Rightarrow> Inr (w \<noteq> None)))"

definition override :: "json \<Rightarrow> path \<Rightarrow> mstate \<Rightarrow> js_error + mstate" where
  "override m p s =
     (case js_read (Some m) p of
        Inl e \<Rightarrow> Inl e
      | Inr None \<Rightarrow> Inr s
      | Inr (Some x) \<Rightarrow>
          (case js_read (Some (config s)) p of
             Inl e \<Rightarrow> Inl e
           | Inr old \<Rightarrow>
               (case js_write (config s) p x of
                  Inl e \<Rightarrow> Inl e
                | Inr c' \<Rightarrow>
                    Inr \<lparr>config = c',
                         changes = changes s @ [\<lparr>cpath = p, old_value = old, new_value = Some x\<rparr>],
                         overrideCount = Suc (overrideCount s)\<rparr>)))"

definition override_nonempty :: "json \<Rightarrow> path \<Rightarrow> mstate \<Rightarrow> js_error + mstate" where
  "override_nonempty m p s =
     (case js_read (Some m) p of
        Inl e \<Rightarrow> Inl e
      | Inr v \<Rightarrow> if v \<noteq> None \<and> v \<noteq> Some (JStr []) then override m p s else Inr s)"

definition init_group :: "path \<Rightarrow> json \<Rightarrow> mstate \<Rightarrow> js_error + mstate" where
  "init_group p d s =
     (case js_read (Some (config s)) p of
        Inl e \<Rightarrow> Inl e
      | Inr v \<Rightarrow>
          if truthy v then Inr s
          else (case js_write (config s) p d of
                  Inl e \<Rightarrow> Inl e
                | Inr c' \<Rightarrow> Inr (s\<lparr>config := c'\<rparr>)))"

text \<open>An object literal; a member whose value is \<^verbatim>\<open>undefined\<close> does not appear in the JSON
  form of the object and is left out.\<close>

definition object_literal :: "(string \<times> json option) list \<Rightarrow> json" where
  "object_literal ms =
     JObj (concat (map (\<lambda>kv. case snd kv of None \<Rightarrow> [] | Some w \<Rightarrow> [(fst kv, w)]) ms))"

text \<open>The right-hand side of \<^verbatim>\<open>config.pipeline = { ... }\<close>; \<open>pl\<close> is \<^verbatim>\<open>manifest.pipeline\<close>, and
  \<^verbatim>\<open>requireApproval\<close> is \<^verbatim>\<open>manifest.pipeline.requireApproval ?? true\<close>.\<close>

definition pipeline_value :: "json option \<Rightarrow> js_error + json" where
  "pipeline_value pl =
     (case js_prop pl ''enabled'' of Inl e \<Rightarrow> Inl e | Inr enabled \<Rightarrow>
     (case js_read pl [''codecommit'', ''existingRepositoryName''] of Inl e \<Rightarrow> Inl e | Inr existing \<Rightarrow>
     (case js_read pl [''codecommit'', ''createNew''] of Inl e \<Rightarrow> Inl e | Inr createNew \<Rightarrow>
     (case js_read pl [''codecommit'', ''newRepositoryName''] of Inl e \<Rightarrow> Inl e | Inr newName \<Rightarrow>
     (case js_read pl [''codecommit'', ''seedOnCreate''] of Inl e \<Rightarrow> Inl e | Inr seed \<Rightarrow>
     (case js_prop pl ''branch'' of Inl e \<Rightarrow> Inl e | Inr branch \<Rightarrow>
     (case js_prop pl ''requireApproval'' of Inl e \<Rightarrow> Inl e | Inr approval \<Rightarrow>
     (case js_prop pl ''notificationEmail'' of Inl e \<Rightarrow> Inl e | Inr email \<Rightarrow>
        Inr (object_literal
          [(''enabled'', enabled),
           (''codecommit'', Some (object_literal
              [(''existingRepositoryName'', existing),
               (''createNew'', createNew),
               (''newRepositoryName'', newName),
               (''seedOnCreate'', seed)])),
           (''branch'', branch),
           (''requireApproval'',
              (if approval = None \<or> approval = Some JNull then Some (JBool True) else approval)),
           (''notificationEmail'', email)])))))))))"

definition replace_pipeline :: "json \<Rightarrow> mstate \<Rightarrow> js_error + mstate" where
  "replace_pipeline m s =
     (case js_prop (Some (config s)) ''pipeline'' of Inl e \<Rightarrow> Inl e | Inr old \<Rightarrow>
     (case js_prop (Some m) ''pipeline'' of Inl e \<Rightarrow> Inl e | Inr pl \<Rightarrow>
     (case pipeline_value pl of Inl e \<Rightarrow> Inl e | Inr v \<Rightarrow>
     (case js_write (config s) [''pipeline''] v of Inl e \<Rightarrow> Inl e | Inr c' \<Rightarrow>
        Inr \<lparr>config = c',
             changes = changes s @ [\<lparr>cpath = [''pipeline''], old_value = old, new_value = pl\<rparr>],
             overrideCount = Suc (overrideCount s)\<rparr>))))"

fun exec :: "json \<Rightarrow> step \<Rightarrow> mstate \<Rightarrow> js_error + mstate"
  and exec_list :: "json \<Rightarrow> step list \<Rightarrow> mstate \<Rightarrow> js_error + mstate" where
  "exec m (Ovr p) s = override m p s"
| "exec m (OvrNonEmpty p) s = override_nonempty m p s"
| "exec m (Init p d) s = init_group p d s"
| "exec m (When g body) s =
     (case eval_guard m g of
        Inl e \<Rightarrow> Inl e
      | Inr b \<Rightarrow> if b then exec_list m body s else Inr s)"
| "exec m ReplacePipeline s = replace_pipeline m s"
| "exec_list m [] s = Inr s"
| "exec_list m (x # xs) s =
     (case exec m x s of Inl e \<Rightarrow> Inl e | Inr s' \<Rightarrow> exec_list m xs s')"

text \<open>The blocks of \<^verbatim>\<open>applyManifestOverrides\<close>, in the order of the source.\<close>

definition vpc_steps :: "step list" where
  "vpc_steps =
     [Init [''vpc''] (JObj []),
      Ovr [''vpc'', ''vpcId''],
      Ovr [''vpc'', ''subnetIds''],
      Ovr [''vpc'', ''executeApiVpcEndpointId''],
      Ovr [''vpc'', ''s3VpcEndpointId''],
      Ovr [''vpc'', ''s3VpcEndpointIps'']]"

definition cognito_steps :: "step list" where
  "cognito_steps =
     [Init [''cognitoFederation''] (JObj []),
      Ovr [''cognitoFederation'', ''enabled''],
      Ovr [''cognitoFederation'', ''autoRedirect''],
      Ovr [''cognitoFederation'', ''customProviderName''],
      Ovr [''cognitoFederation'', ''customProviderType''],
      Ovr [''cognitoFederation'', ''cognitoDomain''],
      When (Present [''cognitoFederation'', ''customSAML''])
        [Init [''cognitoFederation'', ''customSAML''] (JObj []),
         Ovr [''cognitoFederation'', ''customSAML'', ''metadataDocumentUrl'']],
      When (Present [''cognitoFederation'', ''customOIDC''])
        [Init [''cognitoFederation'', ''customOIDC''] (JObj []),
         Ovr [''cognitoFederation'', ''customOIDC'', ''OIDCClient''],
         Ovr [''cognitoFederation'', ''customOIDC'', ''OIDCSecret''],
         Ovr [''cognitoFederation'', ''customOIDC'', ''OIDCIssuerURL'']]]"

definition guardrails_default :: json where
  "guardrails_default =
     JObj [(''enabled'', JBool False), (''identifier'', JStr []), (''version'', JStr [])]"

definition guardrails_steps :: "step list" where
  "guardrails_steps =
     [Init [''bedrock''] (JObj []),
      Init [''bedrock'', ''guardrails''] guardrails_default,
      Ovr [''bedrock'', ''guardrails'', ''enabled''],
      Ovr [''bedrock'', ''guardrails'', ''identifier''],
      Ovr [''bedrock'', ''guardrails'', ''version'']]"

definition rag_steps :: "step list" where
  "rag_steps =
     [Ovr [''rag'', ''enabled''],
      Ovr [''rag'', ''crossEncodingEnabled''],
      When (Present [''rag'', ''engines''])
        [When (Present [''rag'', ''engines'', ''opensearch''])
           [Ovr [''rag'', ''engines'', ''opensearch'', ''enabled'']],
         When (Present [''rag'', ''engines'', ''knowledgeBase''])
           [Ovr [''rag'', ''engines'', ''knowledgeBase'', ''enabled''],
            Ovr [''rag'', ''engines'', ''knowledgeBase'', ''external'']]],
      Ovr [''rag'', ''embeddingsModels''],
      Ovr [''rag'', ''crossEncoderModels'']]"

definition override_steps :: "step list" where
  "override_steps =
     [Ovr [''prefix''],
      Ovr [''enableWaf''],
      Ovr [''createCMKs''],
      Ovr [''advancedMonitoring''],
      Ovr [''disableS3AccessLogs''],
      OvrNonEmpty [''logArchiveBucketName''],
      Ovr [''privateWebsite''],
      Ovr [''certificate''],
      Ovr [''domain''],
      When (Present [''vpc'']) vpc_steps,
      When (Present [''cognitoFederation'']) cognito_steps,
      When (PresentChained [''bedrock''] ''guardrails'') guardrails_steps,
      When (Present [''rag'']) rag_steps,
      When (Present [''pipeline'']) [ReplacePipeline]]"

text \<open>
  \<^verbatim>\<open>JSON.parse(JSON.stringify(baseConfig))\<close> copies the base configuration; on a value of
  type \<open>json\<close> the copy is the value itself.
\<close>

definition deep_clone :: "json \<Rightarrow> json" where
  "deep_clone c = c"

text \<open>The function returns the merged configuration; the calls of \<^verbatim>\<open>logOverride\<close> that it
  made are returned with it, in order.\<close>

definition applyManifestOverrides :: "json \<Rightarrow> json \<Rightarrow> js_error + (json \<times> change list)" where
  "applyManifestOverrides baseConfig manifest =
     (case exec_list manifest override_steps
             \<lparr>config = deep_clone baseConfig, changes = [], overrideCount = 0\<rparr> of
        Inl e \<Rightarrow> Inl e
      | Inr s \<Rightarrow> Inr (config s, changes s))"

section \<open>Locating and loading the manifest: \<^verbatim>\<open>loadConfig\<close>\<close>

text \<open>
  What the loader reads from its environment: the variable \<^verbatim>\<open>DEPLOYMENT_MANIFEST\<close>,
  \<^verbatim>\<open>existsSync\<close>, \<^verbatim>\<open>readFileSync\<close> (\<open>None\<close> when it throws) and \<^verbatim>\<open>yaml.load\<close> (\<open>None\<close> when it
  throws; an empty document loads as \<^verbatim>\<open>undefined\<close>).
\<close>

record files =
  DEPLOYMENT_MANIFEST :: "string option"
  existsSync :: "string \<Rightarrow> bool"
  readFileSync :: "string \<Rightarrow> string option"
  yaml_load :: "string \<Rightarrow> json option option"

datatype load_error =
    ReadFailed
  | YamlFailed
  | ValidationFailed string
  | MergeFailed js_error

text \<open>\<^verbatim>\<open>[env, "deployment-manifest.yaml", "deployment-manifest.yml"].filter(Boolean)\<close>, then
  the first path that exists.\<close>

definition searchPaths :: "files \<Rightarrow> string list" where
  "searchPaths F =
     (case DEPLOYMENT_MANIFEST F of
        None \<Rightarrow> []
      | Some p \<Rightarrow> if p = [] then [] else [p])
     @ [''deployment-manifest.yaml'', ''deployment-manifest.yml'']"

definition findManifestFile :: "files \<Rightarrow> string option" where
  "findManifestFile F = find (existsSync F) (searchPaths F)"

text \<open>\<^verbatim>\<open>loadDeploymentManifest\<close> returns \<^verbatim>\<open>null\<close> (here \<open>Inr None\<close>) when there is no file, and
  throws after printing the formatted errors when validation fails.\<close>

definition loadDeploymentManifest :: "host \<Rightarrow> files \<Rightarrow> load_error + json option" where
  "loadDeploymentManifest H F =
     (case findManifestFile F of
        None \<Rightarrow> Inr None
      | Some manifestPath \<Rightarrow>
          (case readFileSync F manifestPath of
             None \<Rightarrow> Inl ReadFailed
           | Some yamlContent \<Rightarrow>
               (case yaml_load F yamlContent of
                  None \<Rightarrow> Inl YamlFailed
                | Some parsed \<Rightarrow>
                    (case safeParse H DeploymentManifestSchema parsed of
                       Inl errors \<Rightarrow> Inl (ValidationFailed (formatValidationErrors H errors))
                     | Inr d \<Rightarrow> Inr d))))"

text \<open>\<^verbatim>\<open>loadConfig\<close>; \<open>baseConfig\<close> is the result of \<^verbatim>\<open>getConfig()\<close>. The configuration is
  returned together with the change log that was printed.\<close>

definition loadConfig :: "host \<Rightarrow> files \<Rightarrow> json \<Rightarrow> load_error + (json \<times> change list)" where
  "loadConfig H F baseConfig =
     (case loadDeploymentManifest H F of
        Inl e \<Rightarrow> Inl e
      | Inr manifest \<Rightarrow>
          if \<not> truthy manifest then Inr (baseConfig, [])
          else (case applyManifestOverrides baseConfig (the manifest) of
                  Inl e \<Rightarrow> Inl (MergeFailed e)
                | Inr r \<Rightarrow> Inr r))"

section \<open>Notions used in the statements and proofs\<close>

fun indep :: "path \<Rightarrow> path \<Rightarrow> bool" where
  "indep [] q = False"
| "indep (a # p) [] = False"
| "indep (a # p) (b # q) = (a \<noteq> b \<or> indep p q)"

definition recs :: "path \<Rightarrow> mstate \<Rightarrow> change list" where
  "recs q s = filter (\<lambda>c. cpath c = q) (changes s)"

fun guard_path :: "guard \<Rightarrow> path" where
  "guard_path (Present p) = p"
| "guard_path (PresentChained p k) = p @ [k]"

fun quiet :: "json \<Rightarrow> path \<Rightarrow> step \<Rightarrow> bool" where
  "quiet m p (Ovr w) = (indep w p \<or> lookup m w = None)"
| "quiet m p (OvrNonEmpty w) = (indep w p \<or> lookup m w = None)"
| "quiet m p (Init g d) = (indep g p \<or> strict_prefix g p)"
| "quiet m p (When g body) = list_all (quiet m p) body"
| "quiet m p ReplacePipeline = indep [''pipeline''] p"

fun fsafe :: "json \<Rightarrow> path \<Rightarrow> path list \<Rightarrow> step \<Rightarrow> bool" where
  "fsafe m q gps (Ovr w) = (indep w q \<or> prefix q w \<and> lookup m w = None)"
| "fsafe m q gps (OvrNonEmpty w) =
     (indep w q \<or> prefix q w \<and> (lookup m w = None \<or> lookup m w = Some (JStr [])))"
| "fsafe m q gps (Init p d) =
     (indep p q \<or> strict_prefix p q \<and> lookup d (drop (length p) q) = None
      \<or> prefix q p \<and> (\<exists>gp\<in>set gps. lookup m gp = None))"
| "fsafe m q gps (When g body) =
     (lookup m (guard_path g) = None \<or> list_all (fsafe m q (guard_path g # gps)) body)"
| "fsafe m q gps ReplacePipeline =
     (indep [''pipeline''] q \<or> prefix q [''pipeline''] \<and> (\<exists>gp\<in>set gps. lookup m gp = None))"

fun silent :: "path \<Rightarrow> step \<Rightarrow> bool" where
  "silent p (Ovr w) = (w \<noteq> p)"
| "silent p (OvrNonEmpty w) = (w \<noteq> p)"
| "silent p (Init g d) = True"
| "silent p (When g body) = list_all (silent p) body"
| "silent p ReplacePipeline = (p \<noteq> [''pipeline''])"

fun hits :: "json \<Rightarrow> path \<Rightarrow> step \<Rightarrow> bool"
  and hits_list :: "json \<Rightarrow> path \<Rightarrow> step list \<Rightarrow> bool" where
  "hits m p (Ovr w) = (w = p)"
| "hits m p (OvrNonEmpty w) = (w = p \<and> lookup m p \<noteq> Some (JStr []))"
| "hits m p (Init g d) = False"
| "hits m p (When g body) = (prefix (guard_path g) p \<and> hits_list m p body)"
| "hits m p ReplacePipeline = False"
| "hits_list m p [] = False"
| "hits_list m p (st # rest) =
     (if hits m p st then list_all (quiet m p) rest else silent p st \<and> hits_list m p rest)"

fun check_fails :: "host \<Rightarrow> string \<Rightarrow> zcheck \<Rightarrow> bool" where
  "check_fails H s (Min n msg) = (length s < n)"
| "check_fails H s (Max n msg) = (length s > n)"
| "check_fails H s (Length n msg) = (length s \<noteq> n)"
| "check_fails H s (Regex r msg) = (\<not> rx_test r s)"
| "check_fails H s (Url msg) = (\<not> url_ok H s)"
| "check_fails H s (Email msg) = (\<not> email_ok H s)"

text \<open>
  \<open>ill_typed t d\<close>: the value \<open>d\<close> does not have the type \<open>t\<close> declares: it has the wrong
  primitive type, lies outside the enumeration, differs from the literal, has the type of no
  alternative of a union, or is a list or a group with a member that is ill-typed. Lengths,
  patterns and the like play no part in it.
\<close>

fun ill_typed :: "ztype \<Rightarrow> json option \<Rightarrow> bool" where
  "ill_typed (ZString cs) d = (case d of Some (JStr s) \<Rightarrow> False | _ \<Rightarrow> True)"
| "ill_typed (ZNumber pos) d = (case d of Some (JNum n) \<Rightarrow> False | _ \<Rightarrow> True)"
| "ill_typed ZBoolean d = (case d of Some (JBool b) \<Rightarrow> False | _ \<Rightarrow> True)"
| "ill_typed (ZLiteral v) d = (d \<noteq> Some v)"
| "ill_typed (ZEnum vs) d = (case d of Some (JStr s) \<Rightarrow> s \<notin> set vs | _ \<Rightarrow> True)"
| "ill_typed (ZArray t mn) d =
     (case d of Some (JArr xs) \<Rightarrow> list_ex (\<lambda>x. ill_typed t (Some x)) xs | _ \<Rightarrow> True)"
| "ill_typed (ZObject fs) d =
     (case d of
        Some (JObj kvs) \<Rightarrow> list_ex (\<lambda>f. ill_typed (snd f) (map_of kvs (fst f))) fs
      | _ \<Rightarrow> True)"
| "ill_typed (ZOptional t) d = (d \<noteq> None \<and> ill_typed t d)"
| "ill_typed (ZDefault t v) d = (if d = None then ill_typed t (Some v) else ill_typed t d)"
| "ill_typed (ZUnion ts) d = list_all (\<lambda>t. ill_typed t d) ts"
| "ill_typed (ZRefine t chk msg rp) d = ill_typed t d"

text \<open>
  \<open>filled t d\<close>: the value \<open>d\<close> with the defaults that \<open>t\<close> declares filled in and the members
  that \<open>t\<close> does not declare dropped. This is what a refinement of \<open>t\<close> is evaluated on.
\<close>

fun filled :: "ztype \<Rightarrow> json option \<Rightarrow> json option" where
  "filled (ZArray t mn) d =
     (case d of
        Some (JArr xs) \<Rightarrow>
          Some (JArr (concat (map (\<lambda>x. case filled t (Some x) of None \<Rightarrow> [] | Some v \<Rightarrow> [v]) xs)))
      | _ \<Rightarrow> None)"
| "filled (ZObject fs) d =
     (case d of
        Some (JObj kvs) \<Rightarrow>
          Some (JObj (concat (map (\<lambda>f. case filled (snd f) (map_of kvs (fst f)) of
                                          None \<Rightarrow> [] | Some v \<Rightarrow> [(fst f, v)]) fs)))
      | _ \<Rightarrow> None)"
| "filled (ZOptional t) d = (if d = None then None else filled t d)"
| "filled (ZDefault t v) d = (if d = None then filled t (Some v) else filled t d)"
| "filled (ZRefine t chk msg rp) d = filled t d"
| "filled _ d = d"

text \<open>
  The number of constraints of \<open>t\<close> that the value \<open>d\<close> violates. A value of the wrong
  primitive type, outside its enumeration, different from the literal, or satisfying no
  alternative of a union counts once; on a value of the right type every failed check counts
  once; a refinement counts once when the value it refines is not ill-typed and the
  refinement's predicate is false on that value with the defaults filled in.
\<close>

fun violations :: "host \<Rightarrow> ztype \<Rightarrow> json option \<Rightarrow> nat" where
  "violations H (ZString cs) d =
     (case d of Some (JStr s) \<Rightarrow> length (filter (check_fails H s) cs) | _ \<Rightarrow> 1)"
| "violations H (ZNumber pos) d =
     (case d of Some (JNum n) \<Rightarrow> (if pos \<noteq> None \<and> n \<le> 0 then 1 else 0) | _ \<Rightarrow> 1)"
| "violations H ZBoolean d = (case d of Some (JBool b) \<Rightarrow> 0 | _ \<Rightarrow> 1)"
| "violations H (ZLiteral v) d = (if d = Some v then 0 else 1)"
| "violations H (ZEnum vs) d =
     (case d of Some (JStr s) \<Rightarrow> if s \<in> set vs then 0 else 1 | _ \<Rightarrow> 1)"
| "violations H (ZArray t mn) d =
     (case d of
        Some (JArr xs) \<Rightarrow>
          (case mn of None \<Rightarrow> 0 | Some (n, msg) \<Rightarrow> if length xs < n then 1 else 0)
          + sum_list (map (\<lambda>x. violations H t (Some x)) xs)
      | _ \<Rightarrow> 1)"
| "violations H (ZObject fs) d =
     (case d of
        Some (JObj kvs) \<Rightarrow> sum_list (map (\<lambda>f. violations H (snd f) (map_of kvs (fst f))) fs)
      | _ \<Rightarrow> 1)"
| "violations H (ZOptional t) d = (if d = None then 0 else violations H t d)"
| "violations H (ZDefault t v) d =
     (if d = None then violations H t (Some v) else violations H t d)"
| "violations H (ZUnion ts) d = (if list_ex (\<lambda>t. violations H t d = 0) ts then 0 else 1)"
| "violations H (ZRefine t chk msg rp) d =
     violations H t d + (if \<not> ill_typed t d \<and> \<not> chk (filled t d) then 1 else 0)"

text \<open>
  A schema has plain unions when the alternatives of each of its unions are strings, numbers,
  booleans, literals or enumerations, possibly optional, refined, or unions of such: parsing
  such an alternative returns the value it was given.
\<close>

fun flat :: "ztype \<Rightarrow> bool" where
  "flat (ZArray t mn) = False"
| "flat (ZObject fs) = False"
| "flat (ZOptional t) = flat t"
| "flat (ZDefault t v) = False"
| "flat (ZUnion ts) = list_all flat ts"
| "flat (ZRefine t chk msg rp) = flat t"
| "flat _ = True"

fun plain_unions :: "ztype \<Rightarrow> bool" where
  "plain_unions (ZArray t mn) = plain_unions t"
| "plain_unions (ZObject fs) = list_all (\<lambda>f. plain_unions (snd f)) fs"
| "plain_unions (ZOptional t) = plain_unions t"
| "plain_unions (ZDefault t v) = plain_unions t"
| "plain_unions (ZUnion ts) = list_all flat ts"
| "plain_unions (ZRefine t chk msg rp) = plain_unions t"
| "plain_unions _ = True"

definition scalar_fields :: "path list" where
  "scalar_fields =
     [[''prefix''], [''enableWaf''], [''createCMKs''], [''advancedMonitoring''],
      [''disableS3AccessLogs''], [''logArchiveBucketName''], [''privateWebsite''],
      [''certificate''], [''domain''],
      [''vpc'', ''vpcId''], [''vpc'', ''executeApiVpcEndpointId''], [''vpc'', ''s3VpcEndpointId''],
      [''cognitoFederation'', ''enabled''], [''cognitoFederation'', ''autoRedirect''],
      [''cognitoFederation'', ''customProviderName''], [''cognitoFederation'', ''customProviderType''],
      [''cognitoFederation'', ''cognitoDomain''],
      [''cognitoFederation'', ''customSAML'', ''metadataDocumentUrl''],
      [''cognitoFederation'', ''customOIDC'', ''OIDCClient''],
      [''cognitoFederation'', ''customOIDC'', ''OIDCSecret''],
      [''cognitoFederation'', ''customOIDC'', ''OIDCIssuerURL''],
      [''bedrock'', ''guardrails'', ''enabled''], [''bedrock'', ''guardrails'', ''identifier''],
      [''bedrock'', ''guardrails'', ''version''],
      [''rag'', ''enabled''], [''rag'', ''crossEncodingEnabled''],
      [''rag'', ''engines'', ''opensearch'', ''enabled''],
      [''rag'', ''engines'', ''knowledgeBase'', ''enabled'']]"

definition list_fields :: "path list" where
  "list_fields =
     [[''vpc'', ''subnetIds''], [''vpc'', ''s3VpcEndpointIps''],
      [''rag'', ''engines'', ''knowledgeBase'', ''external''],
      [''rag'', ''embeddingsModels''], [''rag'', ''crossEncoderModels'']]"

definition validation_errors :: "host \<Rightarrow> json option \<Rightarrow> issue list" where
  "validation_errors H d = snd (snd (z_parse H DeploymentManifestSchema [] d))"

definition config_at :: "js_error + (json \<times> change list) \<Rightarrow> path \<Rightarrow> json option" where
  "config_at r p = (case r of Inl e \<Rightarrow> None | Inr cl \<Rightarrow> lookup (fst cl) p)"

definition records_for :: "js_error + (json \<times> change list) \<Rightarrow> path \<Rightarrow> change list" where
  "records_for r p = (case r of Inl e \<Rightarrow> [] | Inr cl \<Rightarrow> filter (\<lambda>c. cpath c = p) (snd cl))"

fun string_or_absent :: "json option \<Rightarrow> bool" where
  "string_or_absent None = True"
| "string_or_absent (Some (JStr s)) = True"
| "string_or_absent (Some _) = False"

fun is_string :: "json \<Rightarrow> bool" where
  "is_string (JStr s) = True"
| "is_string _ = False"

fun strings_or_absent :: "json option \<Rightarrow> bool" where
  "strings_or_absent None = True"
| "strings_or_absent (Some (JArr xs)) = list_all is_string xs"
| "strings_or_absent (Some _) = False"

definition vpc_well_typed :: "json \<Rightarrow> bool" where
  "vpc_well_typed vpc =
     (string_or_absent (field (Some vpc) ''vpcId'')
      \<and> strings_or_absent (field (Some vpc) ''subnetIds'')
      \<and> string_or_absent (field (Some vpc) ''executeApiVpcEndpointId'')
      \<and> string_or_absent (field (Some vpc) ''s3VpcEndpointId'')
      \<and> strings_or_absent (field (Some vpc) ''s3VpcEndpointIps''))"

definition endpoint_id_required :: issue where
  "endpoint_id_required =
     \<lparr>code = custom, ipath = [Key ''vpc'', Key ''s3VpcEndpointId''],
      message = Msg ''s3VpcEndpointId is required when s3VpcEndpointIps is provided''\<rparr>"

text \<open>
  The members of the default that the merge installs as \<^verbatim>\<open>config.bedrock.guardrails\<close> when
  the base configuration has none, and the paths that do not lead into the value of a field
  that is assigned as a whole.
\<close>

definition guardrails_members :: "path list" where
  "guardrails_members =
     [[''bedrock'', ''guardrails'', ''enabled''], [''bedrock'', ''guardrails'', ''identifier''],
      [''bedrock'', ''guardrails'', ''version'']]"

definition field_path :: "path \<Rightarrow> bool" where
  "field_path q = (\<forall>p\<in>set (scalar_fields @ list_fields). \<not> strict_prefix p q)"

text \<open>The scalar members of the pipeline group, which the merge copies with the group.\<close>

definition pipeline_fields :: "path list" where
  "pipeline_fields =
     [[''pipeline'', ''enabled''], [''pipeline'', ''branch''], [''pipeline'', ''requireApproval''],
      [''pipeline'', ''notificationEmail''],
      [''pipeline'', ''codecommit'', ''existingRepositoryName''],
      [''pipeline'', ''codecommit'', ''createNew''],
      [''pipeline'', ''codecommit'', ''newRepositoryName''],
      [''pipeline'', ''codecommit'', ''seedOnCreate'']]"







section \<open>Sample inputs\<close>

text \<open>
  A host used to evaluate examples: the documents of the examples contain no URL and
  no e-mail address, so the two predicates are never called on them.
\<close>

definition sample_host :: host where
  "sample_host = \<lparr>url_ok = (\<lambda>s. False), email_ok = (\<lambda>s. False),
     default_message = (\<lambda>c p. ''Invalid input'')\<rparr>"

text \<open>A working directory without a manifest, and no \<^verbatim>\<open>DEPLOYMENT_MANIFEST\<close> variable.\<close>

definition no_manifest :: files where
  "no_manifest = \<lparr>DEPLOYMENT_MANIFEST = None, existsSync = (\<lambda>p. False),
     readFileSync = (\<lambda>p. None), yaml_load = (\<lambda>s. None)\<rparr>"

definition sample_base :: json where
  "sample_base = JObj
     [(''prefix'', JStr ''genai''),
      (''enableWaf'', JBool False),
      (''logArchiveBucketName'', JStr ''central-logs''),
      (''certificate'', JStr ''arn:aws:acm:eu-west-1:123456789012:certificate/abc''),
      (''rag'', JObj
         [(''enabled'', JBool True),
          (''crossEncodingEnabled'', JBool False),
          (''engines'', JObj
             [(''aurora'', JObj [(''enabled'', JBool False)]),
              (''opensearch'', JObj [(''enabled'', JBool True)]),
              (''knowledgeBase'', JObj [(''enabled'', JBool False), (''external'', JArr [])])]),
          (''embeddingsModels'', JArr
             [JObj [(''provider'', JStr ''bedrock''), (''name'', JStr ''m1'')],
              JObj [(''provider'', JStr ''bedrock''), (''name'', JStr ''m2'')],
              JObj [(''provider'', JStr ''sagemaker''), (''name'', JStr ''m3'')]]),
          (''crossEncoderModels'', JArr [])])]"

definition one_model_override :: json where
  "one_model_override = JObj
     [(''prefix'', JStr ''prod-cb''),
      (''rag'', JObj
         [(''embeddingsModels'', JArr
            [JObj [(''provider'', JStr ''bedrock''), (''name'', JStr ''titan'')]])])]"

definition empty_strings_override :: json where
  "empty_strings_override = JObj
     [(''prefix'', JStr ''genai''),
      (''logArchiveBucketName'', JStr []),
      (''certificate'', JStr [])]"

definition pipeline_override :: json where
  "pipeline_override = JObj
     [(''prefix'', JStr ''genai''),
      (''pipeline'', JObj
         [(''enabled'', JBool True),
          (''codecommit'', JObj
             [(''existingRepositoryName'', JStr ''chatbot-repo''), (''seedOnCreate'', JBool False)]),
          (''branch'', JStr ''main''),
          (''requireApproval'', JBool True)])]"

definition both_repositories_override :: json where
  "both_repositories_override = JObj
     [(''prefix'', JStr ''genai''),
      (''pipeline'', JObj
         [(''enabled'', JBool True),
          (''codecommit'', JObj
             [(''existingRepositoryName'', JStr ''chatbot-repo''),
              (''createNew'', JBool True),
              (''newRepositoryName'', JStr ''new-repo'')])])]"

definition no_repository_override :: json where
  "no_repository_override = JObj
     [(''prefix'', JStr ''genai''),
      (''pipeline'', JObj [(''enabled'', JBool True), (''codecommit'', JObj [])])]"

definition ips_without_id_override :: json where
  "ips_without_id_override = JObj
     [(''prefix'', JStr ''genai''),
      (''vpc'', JObj [(''s3VpcEndpointIps'', JArr [JStr ''10.0.1.5''])])]"

definition ill_typed_vpc_override :: json where
  "ill_typed_vpc_override = JObj
     [(''prefix'', JStr ''genai''),
      (''vpc'', JObj [(''vpcId'', JNum 5), (''s3VpcEndpointIps'', JArr [JStr ''10.0.1.5''])])]"

definition id_without_ips_override :: json where
  "id_without_ips_override = JObj
     [(''prefix'', JStr ''genai''),
      (''vpc'', JObj [(''s3VpcEndpointId'', JStr ''vpce-0a1b2c3d'')])]"

definition many_errors_override :: json where
  "many_errors_override = JObj
     [(''prefix'', JStr ''1-prefix-that-is-too-long''),
      (''enableWaf'', JStr ''yes''),
      (''certificate'', JStr ''not-an-arn''),
      (''vpc'', JObj [(''s3VpcEndpointIps'', JArr [JStr ''10.0.1.5''])])]"

definition pipeline_base :: json where
  "pipeline_base = JObj
     [(''prefix'', JStr ''genai''),
      (''rag'', JObj [(''enabled'', JBool False)]),
      (''pipeline'', JObj
         [(''enabled'', JBool True),
          (''codecommit'', JObj [(''existingRepositoryName'', JStr ''old-repo'')]),
          (''branch'', JStr ''main''),
          (''requireApproval'', JBool False),
          (''notificationEmail'', JStr ''ops@example.com'')])]"

definition guardrails_override :: json where
  "guardrails_override = JObj
     [(''prefix'', JStr ''genai''),
      (''bedrock'', JObj [(''guardrails'', JObj [(''enabled'', JBool False)])])]"

definition release_override :: json where
  "release_override = JObj
     [(''prefix'', JStr ''genai''),
      (''pipeline'', JObj
         [(''enabled'', JBool True),
          (''codecommit'', JObj
             [(''existingRepositoryName'', JStr ''chatbot-repo''), (''seedOnCreate'', JBool False)]),
          (''branch'', JStr ''release''),
          (''requireApproval'', JBool True)])]"




section \<open>Paths, reads and writes\<close>

lemma indep_iff: "indep p q \<longleftrightarrow> \<not> prefix p q \<and> \<not> prefix q p"
  by (induction p q rule: indep.induct) auto

lemma indep_sym: "indep p q \<Longrightarrow> indep q p"
  by (simp add: indep_iff)

lemma js_read_None: "js_read None p = Inr x \<Longrightarrow> x = None \<and> p = []"
  by (cases p) auto

lemma js_read_lookup: "js_read (Some v) p = Inr x \<Longrightarrow> x = lookup v p"
proof (induction p arbitrary: v)
  case Nil
  then show ?case by simp
next
  case (Cons k ks)
  then show ?case
    by (cases v) (auto split: option.splits sum.splits dest: js_read_None)
qed

lemma lookup_append: "lookup v (p @ r) = (case lookup v p of None \<Rightarrow> None | Some w \<Rightarrow> lookup w r)"
proof (induction v p rule: lookup.induct)
  case (1 v)
  then show ?case by simp
next
  case (2 kvs k ks)
  then show ?case by (simp split: option.splits)
qed simp_all

lemma lookup_prefix_None: "lookup v p = None \<Longrightarrow> prefix p q \<Longrightarrow> lookup v q = None"
  by (auto simp: prefix_def lookup_append)

lemma js_write_indep:
  "js_write c p x = Inr c' \<Longrightarrow> indep p q \<Longrightarrow> lookup c' q = lookup c q"
proof (induction c p x arbitrary: c' q rule: js_write.induct)
  case (2 kvs k x)
  then show ?case
    by (cases q) (auto simp: update_conv')
next
  case (5 kvs k v va x)
  then show ?case
    by (cases q) (auto simp: update_conv' split: option.splits sum.splits)
qed auto

lemma js_write_below:
  "js_write c p x = Inr c' \<Longrightarrow> lookup c' (p @ r) = lookup x r"
proof (induction c p x arbitrary: c' rule: js_write.induct)
  case (2 kvs k x)
  then show ?case by (auto simp: update_conv')
next
  case (5 kvs k v va x)
  then show ?case
    by (auto simp: update_conv' split: option.splits sum.splits)
qed auto

lemma js_write_at: "js_write c p x = Inr c' \<Longrightarrow> lookup c' p = Some x"
  using js_write_below [of c p x c' "[]"] by simp

lemma indep_neq: "indep p q \<Longrightarrow> p \<noteq> q"
  by (auto simp: indep_iff)

lemma lookup_above_obj:
  "lookup c p = Some v \<Longrightarrow> strict_prefix g p \<Longrightarrow> \<exists>kvs. lookup c g = Some (JObj kvs)"
proof -
  assume a: "lookup c p = Some v" and b: "strict_prefix g p"
  then obtain r where p: "p = g @ r" and r: "r \<noteq> []"
    by (auto simp: strict_prefix_def prefix_def)
  from a p obtain w where w: "lookup c g = Some w" and wr: "lookup w r = Some v"
    by (auto simp: lookup_append split: option.splits)
  from wr r show ?thesis using w by (cases w; cases r) auto
qed

lemma override_quiet:
  assumes "override m w s = Inr s'" "indep w p \<or> lookup m w = None"
  shows "lookup (config s') p = lookup (config s) p \<and> recs p s' = recs p s"
  using assms
  by (auto simp: override_def recs_def split: sum.splits option.splits
           dest: js_write_indep indep_neq dest!: js_read_lookup)

lemma init_quiet:
  assumes "init_group g d s = Inr s'" "indep g p \<or> strict_prefix g p" "lookup (config s) p = Some v"
  shows "lookup (config s') p = lookup (config s) p \<and> recs p s' = recs p s"
proof (cases "indep g p")
  case True
  with assms(1) show ?thesis
    by (auto simp: init_group_def recs_def split: sum.splits if_splits dest: js_write_indep)
next
  case False
  with assms(2) have "strict_prefix g p" by simp
  with assms(3) obtain kvs where "lookup (config s) g = Some (JObj kvs)"
    using lookup_above_obj by blast
  with assms(1) show ?thesis
    by (auto simp: init_group_def recs_def split: sum.splits if_splits dest!: js_read_lookup)
qed

lemma pipeline_quiet:
  assumes "replace_pipeline m s = Inr s'" "indep [''pipeline''] p"
  shows "lookup (config s') p = lookup (config s) p \<and> recs p s' = recs p s"
  using assms
  by (auto simp: replace_pipeline_def recs_def split: sum.splits dest: js_write_indep indep_neq)

lemma quiet_keeps:
  "quiet m p st \<Longrightarrow> exec m st s = Inr s' \<Longrightarrow> lookup (config s) p = Some v
     \<Longrightarrow> lookup (config s') p = Some v \<and> recs p s' = recs p s"
  "list_all (quiet m p) sts \<Longrightarrow> exec_list m sts s = Inr s' \<Longrightarrow> lookup (config s) p = Some v
     \<Longrightarrow> lookup (config s') p = Some v \<and> recs p s' = recs p s"
proof (induction m st s and m sts s arbitrary: s' and s' rule: exec_exec_list.induct)
  case (1 m w s)
  then show ?case using override_quiet [of m w s s' p] by simp
next
  case (2 m w s)
  then show ?case using override_quiet [of m w s s' p]
    by (auto simp: override_nonempty_def split: sum.splits if_splits)
next
  case (3 m g d s)
  then show ?case using init_quiet [of g d s s' p v] by simp
next
  case (4 m g body s)
  then show ?case by (auto split: sum.splits if_splits)
next
  case (5 m s)
  then show ?case using pipeline_quiet [of m s s' p] by simp
next
  case (6 m s)
  then show ?case by simp
next
  case (7 m x xs s)
  then show ?case by (auto split: sum.splits)
qed

lemma silent_recs:
  "silent p st \<Longrightarrow> exec m st s = Inr s' \<Longrightarrow> recs p s' = recs p s"
  "list_all (silent p) sts \<Longrightarrow> exec_list m sts s = Inr s' \<Longrightarrow> recs p s' = recs p s"
proof (induction m st s and m sts s arbitrary: s' and s' rule: exec_exec_list.induct)
  case (1 m w s)
  then show ?case
    by (auto simp: override_def recs_def split: sum.splits option.splits)
next
  case (2 m w s)
  then show ?case
    by (auto simp: override_nonempty_def override_def recs_def split: sum.splits option.splits if_splits)
next
  case (3 m g d s)
  then show ?case by (auto simp: init_group_def recs_def split: sum.splits if_splits)
next
  case (4 m g body s)
  then show ?case by (auto split: sum.splits if_splits)
next
  case (5 m s)
  then show ?case by (auto simp: replace_pipeline_def recs_def split: sum.splits)
next
  case (6 m s)
  then show ?case by simp
next
  case (7 m x xs s)
  then show ?case by (auto split: sum.splits)
qed

lemma guard_true:
  assumes "eval_guard m g = Inr b" "prefix (guard_path g) p" "lookup m p = Some v"
  shows "b"
proof -
  from assms(2,3) have ne: "lookup m (guard_path g) \<noteq> None"
    using lookup_prefix_None by fastforce
  show ?thesis
  proof (cases g)
    case (Present gp)
    with assms(1) ne show ?thesis
      by (auto split: sum.splits dest!: js_read_lookup)
  next
    case (PresentChained gp k)
    with ne obtain w where w: "lookup m gp = Some w" and wk: "lookup w [k] \<noteq> None"
      by (auto simp: lookup_append split: option.splits)
    from wk obtain kvs where "w = JObj kvs" "map_of kvs k \<noteq> None"
      by (cases w) (auto split: option.splits)
    with assms(1) PresentChained w show ?thesis
      by (auto split: sum.splits option.splits json.splits dest!: js_read_lookup)
  qed
qed

lemma override_performs:
  assumes "override m p s = Inr s'" "lookup m p = Some v"
  shows "lookup (config s') p = Some v
       \<and> recs p s' = recs p s @ [\<lparr>cpath = p, old_value = lookup (config s) p, new_value = Some v\<rparr>]"
  using assms
  by (auto simp: override_def recs_def split: sum.splits option.splits
           dest!: js_read_lookup dest: js_write_at)

lemma hits_performs:
  "hits m p st \<Longrightarrow> lookup m p = Some v \<Longrightarrow> exec m st s = Inr s'
     \<Longrightarrow> lookup (config s') p = Some v
       \<and> (\<exists>old. recs p s' = recs p s @ [\<lparr>cpath = p, old_value = old, new_value = Some v\<rparr>])"
  "hits_list m p sts \<Longrightarrow> lookup m p = Some v \<Longrightarrow> exec_list m sts s = Inr s'
     \<Longrightarrow> lookup (config s') p = Some v
       \<and> (\<exists>old. recs p s' = recs p s @ [\<lparr>cpath = p, old_value = old, new_value = Some v\<rparr>])"
proof (induction m st s and m sts s arbitrary: s' and s' rule: exec_exec_list.induct)
  case (1 m w s)
  then show ?case using override_performs [of m p s s' v] by auto
next
  case (2 m w s)
  then show ?case using override_performs [of m p s s' v]
    by (auto simp: override_nonempty_def split: sum.splits if_splits dest!: js_read_lookup)
next
  case (3 m g d s)
  then show ?case by simp
next
  case (4 m g body s)
  from 4(2) have pre: "prefix (guard_path g) p" and hl: "hits_list m p body" by simp_all
  from 4(4) obtain b where b: "eval_guard m g = Inr b" by (auto split: sum.splits)
  with pre 4(3) have "b" using guard_true by blast
  with b 4(4) have "exec_list m body s = Inr s'" by simp
  with 4(1) b \<open>b\<close> hl 4(3) show ?case by blast
next
  case (5 m s)
  then show ?case by simp
next
  case (6 m s)
  then show ?case by simp
next
  case (7 m x xs s)
  from 7(5) obtain s1 where s1: "exec m x s = Inr s1" and s2: "exec_list m xs s1 = Inr s'"
    by (auto split: sum.splits)
  show ?case
  proof (cases "hits m p x")
    case True
    with 7(3) have q: "list_all (quiet m p) xs" by simp
    from 7(1) [OF True 7(4) s1] obtain old where
      a: "lookup (config s1) p = Some v"
      and b: "recs p s1 = recs p s @ [\<lparr>cpath = p, old_value = old, new_value = Some v\<rparr>]"
      by blast
    from quiet_keeps(2) [OF q s2 a] a b show ?thesis by auto
  next
    case False
    with 7(3) have sl: "silent p x" and hl: "hits_list m p xs" by simp_all
    from silent_recs(1) [OF sl s1] have r: "recs p s1 = recs p s" .
    from 7(2) [OF s1 hl 7(4) s2] r show ?thesis by simp
  qed
qed

lemma guard_holds:
  assumes "eval_guard m g = Inr True"
  shows "lookup m (guard_path g) \<noteq> None"
proof (cases g)
  case (Present gp)
  with assms show ?thesis by (auto split: sum.splits dest!: js_read_lookup)
next
  case (PresentChained gp k)
  with assms obtain v where v: "js_read (Some m) gp = Inr (Some v)" and nn: "v \<noteq> JNull"
    by (auto split: sum.splits option.splits json.splits)
  from v have l: "lookup m gp = Some v" by (auto dest!: js_read_lookup)
  from assms PresentChained v nn have "lookup v [k] \<noteq> None"
    by (cases v) (auto split: sum.splits option.splits)
  with l show ?thesis using PresentChained by (simp add: lookup_append)
qed

lemma falsy_lookup_below:
  assumes "\<not> truthy (lookup c p)" "r \<noteq> []"
  shows "lookup c (p @ r) = None"
proof (cases "lookup c p")
  case None
  then show ?thesis by (simp add: lookup_append)
next
  case (Some w)
  with assms show ?thesis by (cases w; cases r) (auto simp: lookup_append)
qed

lemma override_fsafe:
  assumes "override m w s = Inr s'" "indep w q \<or> prefix q w \<and> lookup m w = None"
  shows "lookup (config s') q = lookup (config s) q \<and> recs q s' = recs q s"
  using assms
  by (auto simp: override_def recs_def split: sum.splits option.splits
           dest: js_write_indep indep_neq dest!: js_read_lookup)

lemma init_fsafe:
  assumes "init_group p d s = Inr s'"
    and "indep p q \<or> strict_prefix p q \<and> lookup d (drop (length p) q) = None"
  shows "lookup (config s') q = lookup (config s) q \<and> recs q s' = recs q s"
proof (cases "indep p q")
  case True
  with assms(1) show ?thesis
    by (auto simp: init_group_def recs_def split: sum.splits if_splits dest: js_write_indep)
next
  case False
  with assms(2) have sp: "strict_prefix p q" and dn: "lookup d (drop (length p) q) = None"
    by simp_all
  from sp obtain r where q: "q = p @ r" and r: "r \<noteq> []"
    by (auto simp: strict_prefix_def prefix_def)
  from assms(1) obtain v where rd: "js_read (Some (config s)) p = Inr v"
    by (auto simp: init_group_def split: sum.splits)
  then have v: "v = lookup (config s) p" by (rule js_read_lookup)
  show ?thesis
  proof (cases "truthy v")
    case True
    with assms(1) rd have "s' = s" by (simp add: init_group_def)
    then show ?thesis by simp
  next
    case False
    with v have before: "lookup (config s) q = None"
      using falsy_lookup_below [of "config s" p r] r q by simp
    from assms(1) rd False obtain c' where w: "js_write (config s) p d = Inr c'"
      and s': "s' = s\<lparr>config := c'\<rparr>"
      by (auto simp: init_group_def split: sum.splits)
    from js_write_below [OF w, of r] dn q have "lookup c' q = None" by simp
    with before s' show ?thesis by (simp add: recs_def)
  qed
qed

lemma fsafe_frame:
  "fsafe m q gps st \<Longrightarrow> \<forall>gp\<in>set gps. lookup m gp \<noteq> None \<Longrightarrow> exec m st s = Inr s'
     \<Longrightarrow> lookup (config s') q = lookup (config s) q \<and> recs q s' = recs q s"
  "list_all (fsafe m q gps) sts \<Longrightarrow> \<forall>gp\<in>set gps. lookup m gp \<noteq> None \<Longrightarrow> exec_list m sts s = Inr s'
     \<Longrightarrow> lookup (config s') q = lookup (config s) q \<and> recs q s' = recs q s"
proof (induction m st s and m sts s arbitrary: s' gps and s' gps rule: exec_exec_list.induct)
  case (1 m w s)
  then show ?case using override_fsafe [of m w s s' q] by simp
next
  case (2 m w s)
  then show ?case using override_fsafe [of m w s s' q]
    by (auto simp: override_nonempty_def split: sum.splits if_splits dest!: js_read_lookup)
next
  case (3 m p d s)
  then show ?case using init_fsafe [of p d s s' q] by auto
next
  case (4 m g body s)
  show ?case
  proof (cases "eval_guard m g = Inr True")
    case True
    then have gh: "lookup m (guard_path g) \<noteq> None" by (rule guard_holds)
    with 4(3) have all: "\<forall>gp\<in>set (guard_path g # gps). lookup m gp \<noteq> None" by simp
    from True 4(4) have ex: "exec_list m body s = Inr s'" by simp
    from 4(2) gh have fs: "list_all (fsafe m q (guard_path g # gps)) body" by simp
    from 4(1) [OF True _ fs all ex] show ?thesis by simp
  next
    case False
    with 4(4) show ?thesis by (auto split: sum.splits if_splits)
  qed
next
  case (5 m s)
  then show ?case using pipeline_quiet [of m s s' q] by auto
next
  case (6 m s)
  then show ?case by simp
next
  case (7 m x xs s)
  from 7(5) obtain s1 where s1: "exec m x s = Inr s1" and s2: "exec_list m xs s1 = Inr s'"
    by (auto split: sum.splits)
  from 7(3) have a: "fsafe m q gps x" and b: "list_all (fsafe m q gps) xs" by simp_all
  from 7(1) [OF a 7(4) s1] 7(2) [OF s1 b 7(4) s2] show ?case by simp
qed

lemma merge_status_Valid:
  "merge_status st sts = Valid \<longleftrightarrow> st = Valid \<and> (\<forall>x\<in>set sts. x = Valid)"
proof (induction sts arbitrary: st)
  case Nil
  then show ?case by simp
next
  case (Cons x xs)
  then show ?case by (cases x) auto
qed

lemma merge_status_Aborted:
  "st \<noteq> Aborted \<Longrightarrow> merge_status st sts = Aborted \<longleftrightarrow> Aborted \<in> set sts"
proof (induction sts arbitrary: st)
  case Nil
  then show ?case by simp
next
  case (Cons x xs)
  then show ?case by (cases x) auto
qed

lemma find_Some_D: "find P xs = Some x \<Longrightarrow> x \<in> set xs \<and> P x"
  by (induction xs) (auto split: if_splits)

lemma find_None_D: "find P xs = None \<Longrightarrow> x \<in> set xs \<Longrightarrow> \<not> P x"
  by (induction xs) (auto split: if_splits)

lemma merge_array_honest:
  assumes "\<forall>r\<in>set rs. (fst r = Valid) = (snd (snd r) = [])"
  shows "(fst (merge_array own rs) = Valid) = (snd (snd (merge_array own rs)) = [])"
proof (cases "merge_status (dirty_if own) (map fst rs) = Aborted")
  case True
  have "dirty_if own \<noteq> Aborted" by (simp add: dirty_if_def)
  with True have "Aborted \<in> set (map fst rs)" by (simp add: merge_status_Aborted)
  then obtain r where "r \<in> set rs" "fst r = Aborted" by auto
  with assms have "r \<in> set rs" "snd (snd r) \<noteq> []" by auto
  then have "concat (map (\<lambda>r. snd (snd r)) rs) \<noteq> []" by auto
  with True show ?thesis by (simp add: merge_array_def Let_def)
next
  case False
  have "(merge_status (dirty_if own) (map fst rs) = Valid)
        = (own = [] \<and> (\<forall>r\<in>set rs. snd (snd r) = []))"
    using assms by (auto simp: merge_status_Valid dirty_if_def)
  with False show ?thesis by (auto simp: merge_array_def Let_def)
qed

lemma merge_object_honest:
  assumes "\<forall>pr\<in>set prs. (fst (snd pr) = Valid) = (snd (snd (snd pr)) = [])"
  shows "(fst (merge_object prs) = Valid) = (snd (snd (merge_object prs)) = [])"
proof (cases "merge_status Valid (map (\<lambda>pr. fst (snd pr)) prs) = Aborted")
  case True
  then have "Aborted \<in> set (map (\<lambda>pr. fst (snd pr)) prs)" by (simp add: merge_status_Aborted)
  then obtain pr where "pr \<in> set prs" "fst (snd pr) = Aborted" by auto
  with assms have "pr \<in> set prs" "snd (snd (snd pr)) \<noteq> []" by auto
  then have "concat (map (\<lambda>pr. snd (snd (snd pr))) prs) \<noteq> []" by auto
  with True show ?thesis by (simp add: merge_object_def Let_def)
next
  case False
  have "(merge_status Valid (map (\<lambda>pr. fst (snd pr)) prs) = Valid)
        = (\<forall>pr\<in>set prs. snd (snd (snd pr)) = [])"
    using assms by (auto simp: merge_status_Valid)
  with False show ?thesis by (auto simp: merge_object_def Let_def)
qed

lemma z_parse_honest:
  "(fst (z_parse H t p d) = Valid) = (snd (snd (z_parse H t p d)) = [])"
proof (induction H t p d rule: z_parse.induct)
  case (1 H cs p d)
  then show ?case
    by (auto simp: invalid_def dirty_if_def Let_def split: option.splits json.splits)
next
  case (2 H pos p d)
  then show ?case by (auto simp: invalid_def split: option.splits json.splits)
next
  case (3 H p d)
  then show ?case by (auto simp: invalid_def split: option.splits json.splits)
next
  case (4 H v p d)
  then show ?case by (auto simp: invalid_def)
next
  case (5 H vs p d)
  then show ?case by (auto simp: invalid_def split: option.splits json.splits)
next
  case (6 H t mn p d)
  show ?case
  proof (cases d)
    case None
    then show ?thesis by (simp add: invalid_def)
  next
    case (Some x)
    show ?thesis
    proof (cases x)
      case (JArr xs)
      with Some 6 have "\<forall>r\<in>set (map (\<lambda>ix. z_parse H t (p @ [Idx (fst ix)]) (Some (snd ix))) (enumerate 0 xs)).
          (fst r = Valid) = (snd (snd r) = [])"
        by auto
      from merge_array_honest [OF this] Some JArr show ?thesis by simp
    qed (use Some in \<open>simp_all add: invalid_def\<close>)
  qed
next
  case (7 H fs p d)
  show ?case
  proof (cases d)
    case None
    then show ?thesis by (simp add: invalid_def)
  next
    case (Some x)
    show ?thesis
    proof (cases x)
      case (JObj kvs)
      with Some 7 have "\<forall>pr\<in>set (map (\<lambda>f. (fst f, z_parse H (snd f) (p @ [Key (fst f)]) (map_of kvs (fst f)))) fs).
          (fst (snd pr) = Valid) = (snd (snd (snd pr)) = [])"
        by auto
      from merge_object_honest [OF this] Some JObj show ?thesis by simp
    qed (use Some in \<open>simp_all add: invalid_def\<close>)
  qed
next
  case (8 H t p d)
  then show ?case by simp
next
  case (9 H t v p d)
  then show ?case by simp
next
  case (10 H ts p d)
  have ih: "\<And>r. r \<in> set (map (\<lambda>t. z_parse H t p d) ts) \<Longrightarrow> (fst r = Valid) = (snd (snd r) = [])"
    using 10 by auto
  show ?case
  proof (cases "find (\<lambda>r. fst r = Valid) (map (\<lambda>t. z_parse H t p d) ts)")
    case (Some r)
    then have "r \<in> set (map (\<lambda>t. z_parse H t p d) ts)" and "fst r = Valid"
      using find_Some_D by fastforce+
    with ih [of r] Some show ?thesis by simp
  next
    case None
    note nv = this
    show ?thesis
    proof (cases "find (\<lambda>r. fst r = Dirty) (map (\<lambda>t. z_parse H t p d) ts)")
      case (Some r)
      then have "r \<in> set (map (\<lambda>t. z_parse H t p d) ts)" and "fst r = Dirty"
        using find_Some_D by fastforce+
      with ih [of r] Some nv show ?thesis by simp
    next
      case None
      with nv show ?thesis by (simp add: invalid_def)
    qed
  qed
next
  case (11 H t chk msg rp p d)
  then show ?case
    by (cases "z_parse H t p d"; cases "fst (z_parse H t p d)") auto
qed

lemma string_check_length:
  "length (string_check H p s c) = (if check_fails H s c then 1 else 0)"
  by (cases c) auto

lemma string_checks_length:
  "length (concat (map (string_check H p s) cs)) = length (filter (check_fails H s) cs)"
  by (induction cs) (auto simp: string_check_length)

lemma sum_list_le:
  "(\<And>x. x \<in> set xs \<Longrightarrow> f x \<le> (g x :: nat)) \<Longrightarrow> sum_list (map f xs) \<le> sum_list (map g xs)"
  by (induction xs) (auto intro: add_mono)

lemma merge_array_issues: "snd (snd (merge_array own rs)) = own @ concat (map (\<lambda>r. snd (snd r)) rs)"
  by (simp add: merge_array_def Let_def)

lemma merge_object_issues:
  "snd (snd (merge_object prs)) = concat (map (\<lambda>pr. snd (snd (snd pr))) prs)"
  by (simp add: merge_object_def Let_def)

lemma union_result_cases:
  "(\<exists>r\<in>set rs. union_result p rs = r \<and> fst r \<noteq> Aborted)
   \<or> (union_result p rs = invalid invalid_union p \<and> (\<forall>r\<in>set rs. fst r = Aborted))"
proof (cases "find (\<lambda>r. fst r = Valid) rs")
  case (Some r)
  with find_Some_D [OF Some] show ?thesis by auto
next
  case None
  note nv = this
  show ?thesis
  proof (cases "find (\<lambda>r. fst r = Dirty) rs")
    case (Some r)
    with nv find_Some_D [OF Some] show ?thesis by auto
  next
    case None
    have "\<forall>r\<in>set rs. fst r = Aborted"
    proof
      fix r assume r: "r \<in> set rs"
      from find_None_D [OF nv r] find_None_D [OF None r] show "fst r = Aborted"
        by (cases "fst r") auto
    qed
    with nv None show ?thesis by simp
  qed
qed

lemma in_map_iff_ex: "(a \<in> set (map g xs)) \<longleftrightarrow> (\<exists>x\<in>set xs. g x = a)"
  by auto

lemma merge_array_aborted:
  "fst (merge_array own rs) = Aborted \<longleftrightarrow> Aborted \<in> set (map fst rs)"
proof -
  have "dirty_if own \<noteq> Aborted" by (simp add: dirty_if_def)
  from merge_status_Aborted [OF this, of "map fst rs"] show ?thesis
    by (simp add: merge_array_def Let_def)
qed

lemma merge_object_aborted:
  "fst (merge_object prs) = Aborted \<longleftrightarrow> Aborted \<in> set (map (\<lambda>pr. fst (snd pr)) prs)"
proof -
  have "Valid \<noteq> Aborted" by simp
  from merge_status_Aborted [OF this, of "map (\<lambda>pr. fst (snd pr)) prs"] show ?thesis
    by (simp add: merge_object_def Let_def)
qed

lemma z_parse_ill_typed:
  "fst (z_parse H t p d) = Aborted \<longleftrightarrow> ill_typed t d"
proof (induction H t p d rule: z_parse.induct)
  case (1 H cs p d)
  then show ?case
    by (auto simp: invalid_def dirty_if_def Let_def split: option.splits json.splits)
next
  case (2 H pos p d)
  then show ?case by (auto simp: invalid_def split: option.splits json.splits)
next
  case (3 H p d)
  then show ?case by (auto simp: invalid_def split: option.splits json.splits)
next
  case (4 H v p d)
  then show ?case by (auto simp: invalid_def)
next
  case (5 H vs p d)
  then show ?case by (auto simp: invalid_def split: option.splits json.splits)
next
  case (6 H t mn p d)
  show ?case
  proof (cases d)
    case None
    then show ?thesis by (simp add: invalid_def)
  next
    case (Some x)
    show ?thesis
    proof (cases x)
      case (JArr xs)
      with Some 6 have ih: "\<And>ix. ix \<in> set (enumerate 0 xs) \<Longrightarrow>
          (fst (z_parse H t (p @ [Idx (fst ix)]) (Some (snd ix))) = Aborted) = ill_typed t (Some (snd ix))"
        by blast
      have "(Aborted \<in> set (map fst (map (\<lambda>ix. z_parse H t (p @ [Idx (fst ix)]) (Some (snd ix))) (enumerate 0 xs))))
            \<longleftrightarrow> (\<exists>ix\<in>set (enumerate 0 xs). fst (z_parse H t (p @ [Idx (fst ix)]) (Some (snd ix))) = Aborted)"
        unfolding map_map comp_def by (rule in_map_iff_ex)
      also have "\<dots> \<longleftrightarrow> (\<exists>ix\<in>set (enumerate 0 xs). ill_typed t (Some (snd ix)))"
        by (intro bex_cong refl ih)
      also have "\<dots> \<longleftrightarrow> (\<exists>x\<in>snd ` set (enumerate 0 xs). ill_typed t (Some x))" by simp
      also have "snd ` set (enumerate 0 xs) = set xs"
        by (metis list.set_map map_snd_enumerate)
      finally show ?thesis using Some JArr
        by (simp add: merge_array_aborted list_ex_iff del: set_map)
    qed (use Some in \<open>simp_all add: invalid_def\<close>)
  qed
next
  case (7 H fs p d)
  show ?case
  proof (cases d)
    case None
    then show ?thesis by (simp add: invalid_def)
  next
    case (Some x)
    show ?thesis
    proof (cases x)
      case (JObj kvs)
      with Some 7 have ih: "\<And>f. f \<in> set fs \<Longrightarrow>
          (fst (z_parse H (snd f) (p @ [Key (fst f)]) (map_of kvs (fst f))) = Aborted)
          = ill_typed (snd f) (map_of kvs (fst f))"
        by blast
      have "(Aborted \<in> set (map (\<lambda>pr. fst (snd pr))
               (map (\<lambda>f. (fst f, z_parse H (snd f) (p @ [Key (fst f)]) (map_of kvs (fst f)))) fs)))
            \<longleftrightarrow> (\<exists>f\<in>set fs. fst (z_parse H (snd f) (p @ [Key (fst f)]) (map_of kvs (fst f))) = Aborted)"
        unfolding map_map comp_def snd_conv by (rule in_map_iff_ex)
      also have "\<dots> \<longleftrightarrow> (\<exists>f\<in>set fs. ill_typed (snd f) (map_of kvs (fst f)))"
        by (intro bex_cong refl ih)
      finally show ?thesis using Some JObj
        by (simp add: merge_object_aborted list_ex_iff del: set_map)
    qed (use Some in \<open>simp_all add: invalid_def\<close>)
  qed
next
  case (8 H t p d)
  then show ?case by simp
next
  case (9 H t v p d)
  then show ?case by simp
next
  case (10 H ts p d)
  let ?rs = "map (\<lambda>t. z_parse H t p d) ts"
  from 10 have ih: "\<And>t. t \<in> set ts \<Longrightarrow> (fst (z_parse H t p d) = Aborted) = ill_typed t d" by blast
  from union_result_cases [of ?rs p]
  show ?case
  proof
    assume "\<exists>r\<in>set ?rs. union_result p ?rs = r \<and> fst r \<noteq> Aborted"
    then obtain t where t: "t \<in> set ts" and u: "union_result p ?rs = z_parse H t p d"
      and na: "fst (z_parse H t p d) \<noteq> Aborted" by auto
    from na ih [OF t] have "\<not> ill_typed t d" by simp
    with t have "\<not> list_all (\<lambda>t. ill_typed t d) ts" by (auto simp: list_all_iff)
    with u na show ?thesis by (simp del: union_result.simps)
  next
    assume a: "union_result p ?rs = invalid invalid_union p \<and> (\<forall>r\<in>set ?rs. fst r = Aborted)"
    then have "\<forall>t\<in>set ts. ill_typed t d" using ih by auto
    with a show ?thesis by (simp add: invalid_def list_all_iff del: union_result.simps)
  qed
next
  case (11 H t chk msg rp p d)
  then show ?case
    by (cases "z_parse H t p d"; cases "fst (z_parse H t p d)") auto
qed


lemma flat_value:
  "flat t \<Longrightarrow> fst (z_parse H t p d) \<noteq> Aborted \<Longrightarrow> fst (snd (z_parse H t p d)) = d"
proof (induction H t p d rule: z_parse.induct)
  case (1 H cs p d)
  then show ?case by (auto simp: invalid_def Let_def split: option.splits json.splits)
next
  case (2 H pos p d)
  then show ?case by (auto simp: invalid_def split: option.splits json.splits)
next
  case (3 H p d)
  then show ?case by (auto simp: invalid_def split: option.splits json.splits)
next
  case (4 H v p d)
  then show ?case by (auto simp: invalid_def)
next
  case (5 H vs p d)
  then show ?case by (auto simp: invalid_def split: option.splits json.splits)
next
  case (8 H t p d)
  then show ?case by (cases d) auto
next
  case (10 H ts p d)
  let ?rs = "map (\<lambda>t. z_parse H t p d) ts"
  from union_result_cases [of ?rs p]
  show ?case
  proof
    assume "\<exists>r\<in>set ?rs. union_result p ?rs = r \<and> fst r \<noteq> Aborted"
    then obtain t where t: "t \<in> set ts" and u: "union_result p ?rs = z_parse H t p d"
      and na: "fst (z_parse H t p d) \<noteq> Aborted" by auto
    from 10(2) t have "flat t" by (simp add: list_all_iff)
    from 10(1) [OF t this na] u show ?thesis by (simp del: union_result.simps)
  next
    assume "union_result p ?rs = invalid invalid_union p \<and> (\<forall>r\<in>set ?rs. fst r = Aborted)"
    with 10(3) show ?thesis by (simp add: invalid_def del: union_result.simps)
  qed
next
  case (11 H t chk msg rp p d)
  then show ?case
    by (cases "z_parse H t p d"; cases "fst (z_parse H t p d)") (auto split: if_splits)
qed simp_all

lemma merge_array_value:
  "fst (merge_array own rs) \<noteq> Aborted \<Longrightarrow>
   fst (snd (merge_array own rs))
   = Some (JArr (concat (map (\<lambda>r. case fst (snd r) of None \<Rightarrow> [] | Some v \<Rightarrow> [v]) rs)))"
  by (simp add: merge_array_def Let_def split: if_splits)

lemma merge_object_value:
  "fst (merge_object prs) \<noteq> Aborted \<Longrightarrow>
   fst (snd (merge_object prs))
   = Some (JObj (concat (map (\<lambda>pr. case fst (snd (snd pr)) of None \<Rightarrow> [] | Some v \<Rightarrow> [(fst pr, v)]) prs)))"
  by (simp add: merge_object_def Let_def split: if_splits)

lemma map_enumerate_snd: "map (\<lambda>ix. h (snd ix)) (enumerate n xs) = map h xs"
  by (induction xs arbitrary: n) simp_all

lemma z_parse_filled:
  "plain_unions t \<Longrightarrow> \<not> ill_typed t d \<Longrightarrow> fst (snd (z_parse H t p d)) = filled t d"
proof (induction H t p d rule: z_parse.induct)
  case (1 H cs p d)
  then show ?case by (auto simp: Let_def split: option.splits json.splits)
next
  case (2 H pos p d)
  then show ?case by (auto split: option.splits json.splits)
next
  case (3 H p d)
  then show ?case by (auto split: option.splits json.splits)
next
  case (4 H v p d)
  then show ?case by auto
next
  case (5 H vs p d)
  then show ?case by (auto split: option.splits json.splits)
next
  case (6 H t mn p d)
  from 6(3) obtain xs where d: "d = Some (JArr xs)" and ok: "\<forall>x\<in>set xs. \<not> ill_typed t (Some x)"
    by (auto simp: list_ex_iff split: option.splits json.splits)
  from 6(2) have pu: "plain_unions t" by simp
  have ih: "\<And>ix. ix \<in> set (enumerate 0 xs) \<Longrightarrow>
      fst (snd (z_parse H t (p @ [Idx (fst ix)]) (Some (snd ix)))) = filled t (Some (snd ix))"
  proof -
    fix ix assume ix: "ix \<in> set (enumerate 0 xs)"
    then have "snd ix \<in> snd ` set (enumerate 0 xs)" by (rule imageI)
    also have "snd ` set (enumerate 0 xs) = set xs" by (metis list.set_map map_snd_enumerate)
    finally have "snd ix \<in> set xs" .
    with ok have "\<not> ill_typed t (Some (snd ix))" by simp
    from 6(1) [OF d refl ix pu this] show "fst (snd (z_parse H t (p @ [Idx (fst ix)]) (Some (snd ix)))) = filled t (Some (snd ix))" .
  qed
  from 6(3) have na: "fst (z_parse H (ZArray t mn) p d) \<noteq> Aborted"
    by (simp only: z_parse_ill_typed) simp
  have "map (\<lambda>ix. case fst (snd (z_parse H t (p @ [Idx (fst ix)]) (Some (snd ix)))) of None \<Rightarrow> [] | Some v \<Rightarrow> [v]) (enumerate 0 xs)
        = map (\<lambda>ix. case filled t (Some (snd ix)) of None \<Rightarrow> [] | Some v \<Rightarrow> [v]) (enumerate 0 xs)"
    by (rule map_cong [OF refl]) (simp add: ih)
  also have "\<dots> = map (\<lambda>x. case filled t (Some x) of None \<Rightarrow> [] | Some v \<Rightarrow> [v]) xs"
    by (rule map_enumerate_snd)
  finally show ?case using na d
    by (simp add: merge_array_value comp_def cong: option.case_cong)
next
  case (7 H fs p d)
  from 7(3) obtain kvs where d: "d = Some (JObj kvs)"
    and ok: "\<forall>f\<in>set fs. \<not> ill_typed (snd f) (map_of kvs (fst f))"
    by (auto simp: list_ex_iff split: option.splits json.splits)
  have ih: "\<And>f. f \<in> set fs \<Longrightarrow>
      fst (snd (z_parse H (snd f) (p @ [Key (fst f)]) (map_of kvs (fst f)))) = filled (snd f) (map_of kvs (fst f))"
  proof -
    fix f assume f: "f \<in> set fs"
    with 7(2) have pu: "plain_unions (snd f)" by (simp add: list_all_iff)
    from ok f have "\<not> ill_typed (snd f) (map_of kvs (fst f))" by simp
    from 7(1) [OF d refl f pu this]
    show "fst (snd (z_parse H (snd f) (p @ [Key (fst f)]) (map_of kvs (fst f)))) = filled (snd f) (map_of kvs (fst f))" .
  qed
  from 7(3) have na: "fst (z_parse H (ZObject fs) p d) \<noteq> Aborted"
    by (simp only: z_parse_ill_typed) simp
  have eq: "map (\<lambda>f. case fst (snd (z_parse H (snd f) (p @ [Key (fst f)]) (map_of kvs (fst f)))) of None \<Rightarrow> [] | Some v \<Rightarrow> [(fst f, v)]) fs
        = map (\<lambda>f. case filled (snd f) (map_of kvs (fst f)) of None \<Rightarrow> [] | Some v \<Rightarrow> [(fst f, v)]) fs"
    by (rule map_cong [OF refl]) (simp add: ih)
  from na d have "fst (snd (z_parse H (ZObject fs) p d))
      = Some (JObj (concat (map (\<lambda>f. case fst (snd (z_parse H (snd f) (p @ [Key (fst f)]) (map_of kvs (fst f)))) of None \<Rightarrow> [] | Some v \<Rightarrow> [(fst f, v)]) fs)))"
    by (simp add: merge_object_value comp_def cong: option.case_cong)
  then show ?case unfolding eq using d by simp
next
  case (8 H t p d)
  then show ?case by (cases d) auto
next
  case (9 H t v p d)
  then show ?case by (cases d) auto
next
  case (10 H ts p d)
  from 10(2) have "flat (ZUnion ts)" by simp
  moreover from 10(3) have "fst (z_parse H (ZUnion ts) p d) \<noteq> Aborted"
    by (simp only: z_parse_ill_typed) simp
  ultimately have "fst (snd (z_parse H (ZUnion ts) p d)) = d" by (rule flat_value)
  then show ?case by simp
next
  case (11 H t chk msg rp p d)
  from 11(2,3) have pu: "plain_unions t" and ok: "\<not> ill_typed t d" by simp_all
  from ok have "fst (z_parse H t p d) \<noteq> Aborted" by (simp only: z_parse_ill_typed) simp
  with 11(1) [OF pu ok] show ?case
    by (cases "z_parse H t p d"; cases "fst (z_parse H t p d)") (auto split: if_splits)
qed

lemma flat_plain_unions: "flat t \<Longrightarrow> plain_unions t"
  by (induction t) simp_all

lemma violations_le_issues:
  "plain_unions t \<Longrightarrow> violations H t d \<le> length (snd (snd (z_parse H t p d)))"
proof (induction H t p d rule: z_parse.induct)
  case (1 H cs p d)
  then show ?case
    by (auto simp: invalid_def Let_def string_checks_length split: option.splits json.splits)
next
  case (2 H pos p d)
  then show ?case by (auto simp: invalid_def split: option.splits json.splits)
next
  case (3 H p d)
  then show ?case by (auto simp: invalid_def split: option.splits json.splits)
next
  case (4 H v p d)
  then show ?case by (auto simp: invalid_def)
next
  case (5 H vs p d)
  then show ?case by (auto simp: invalid_def split: option.splits json.splits)
next
  case (6 H t mn p d)
  show ?case
  proof (cases d)
    case None
    then show ?thesis by (simp add: invalid_def)
  next
    case (Some x)
    show ?thesis
    proof (cases x)
      case (JArr xs)
      from 6(2) have pu: "plain_unions t" by simp
      from 6(1) [OF Some JArr _ pu] have ih: "\<And>ix. ix \<in> set (enumerate 0 xs) \<Longrightarrow>
          violations H t (Some (snd ix))
          \<le> length (snd (snd (z_parse H t (p @ [Idx (fst ix)]) (Some (snd ix)))))"
        by blast
      have "sum_list (map (\<lambda>ix. violations H t (Some (snd ix))) (enumerate 0 xs))
            \<le> sum_list (map (\<lambda>ix. length (snd (snd (z_parse H t (p @ [Idx (fst ix)]) (Some (snd ix)))))) (enumerate 0 xs))"
        by (rule sum_list_le) (rule ih)
      moreover have "map (\<lambda>ix. violations H t (Some (snd ix))) (enumerate 0 xs)
            = map (\<lambda>x. violations H t (Some x)) xs"
        by (rule map_enumerate_snd)
      ultimately show ?thesis using Some JArr
        by (auto simp: merge_array_issues length_concat comp_def split: option.splits)
    qed (use Some in \<open>simp_all add: invalid_def\<close>)
  qed
next
  case (7 H fs p d)
  show ?case
  proof (cases d)
    case None
    then show ?thesis by (simp add: invalid_def)
  next
    case (Some x)
    show ?thesis
    proof (cases x)
      case (JObj kvs)
      have ih: "\<And>f. f \<in> set fs \<Longrightarrow>
          violations H (snd f) (map_of kvs (fst f))
          \<le> length (snd (snd (z_parse H (snd f) (p @ [Key (fst f)]) (map_of kvs (fst f)))))"
      proof -
        fix f assume f: "f \<in> set fs"
        with 7(2) have pu: "plain_unions (snd f)" by (simp add: list_all_iff)
        from 7(1) [OF Some JObj f pu]
        show "violations H (snd f) (map_of kvs (fst f))
          \<le> length (snd (snd (z_parse H (snd f) (p @ [Key (fst f)]) (map_of kvs (fst f)))))" .
      qed
      have "sum_list (map (\<lambda>f. violations H (snd f) (map_of kvs (fst f))) fs)
            \<le> sum_list (map (\<lambda>f. length (snd (snd (z_parse H (snd f) (p @ [Key (fst f)]) (map_of kvs (fst f)))))) fs)"
        by (rule sum_list_le) (rule ih)
      with Some JObj show ?thesis
        by (simp add: merge_object_issues length_concat comp_def)
    qed (use Some in \<open>simp_all add: invalid_def\<close>)
  qed
next
  case (8 H t p d)
  then show ?case by (cases d) auto
next
  case (9 H t v p d)
  then show ?case by (cases d) auto
next
  case (10 H ts p d)
  show ?case
  proof (cases "list_ex (\<lambda>t. violations H t d = 0) ts")
    case True
    then show ?thesis by simp
  next
    case False
    let ?rs = "map (\<lambda>t. z_parse H t p d) ts"
    have "fst (z_parse H (ZUnion ts) p d) \<noteq> Valid"
    proof
      assume v: "fst (z_parse H (ZUnion ts) p d) = Valid"
      from union_result_cases [of ?rs p]
      show False
      proof
        assume "\<exists>r\<in>set ?rs. union_result p ?rs = r \<and> fst r \<noteq> Aborted"
        then obtain t where t: "t \<in> set ts" and u: "union_result p ?rs = z_parse H t p d" by auto
        from u v have "fst (z_parse H t p d) = Valid" by (simp del: union_result.simps)
        then have "snd (snd (z_parse H t p d)) = []" by (simp only: z_parse_honest)
        moreover from 10(2) t have "plain_unions t" by (simp add: list_all_iff flat_plain_unions)
        ultimately have "violations H t d = 0" using 10(1) [OF t] by simp
        with t False show False by (auto simp: list_ex_iff)
      next
        assume "union_result p ?rs = invalid invalid_union p \<and> (\<forall>r\<in>set ?rs. fst r = Aborted)"
        with v show False by (simp add: invalid_def del: union_result.simps)
      qed
    qed
    then have "snd (snd (z_parse H (ZUnion ts) p d)) \<noteq> []" by (simp only: z_parse_honest) simp
    then have "1 \<le> length (snd (snd (z_parse H (ZUnion ts) p d)))"
      by (cases "snd (snd (z_parse H (ZUnion ts) p d))") simp_all
    with False show ?thesis by simp
  qed
next
  case (11 H t chk msg rp p d)
  from 11(2) have pu: "plain_unions t" by simp
  note ih = 11(1) [OF pu]
  show ?case
  proof (cases "ill_typed t d")
    case True
    then have "fst (z_parse H t p d) = Aborted" by (simp only: z_parse_ill_typed)
    with ih True show ?thesis by (cases "z_parse H t p d") auto
  next
    case False
    then have na: "fst (z_parse H t p d) \<noteq> Aborted" by (simp only: z_parse_ill_typed) simp
    from z_parse_filled [OF pu False] have v: "fst (snd (z_parse H t p d)) = filled t d" .
    from ih na v False show ?thesis
      by (cases "z_parse H t p d"; cases "fst (z_parse H t p d)") auto
  qed
qed

lemma refinement_skipped:
  assumes "ill_typed t g"
  shows "snd (snd (z_parse H (ZRefine t chk msg rp) p g)) = snd (snd (z_parse H t p g))"
proof -
  from assms have "fst (z_parse H t p g) = Aborted" by (simp only: z_parse_ill_typed)
  then show ?thesis by (cases "z_parse H t p g") auto
qed

lemma schema_plain_unions: "plain_unions DeploymentManifestSchema"
  by (simp add: DeploymentManifestSchema_def VpcConfigSchema_def VpcConfigObject_def
        CognitoFederationSchema_def CognitoFederationObject_def CognitoFederationSAMLSchema_def
        CognitoFederationOIDCSchema_def BedrockGuardrailsSchema_def RagConfigSchema_def
        ExternalKnowledgeBaseSchema_def ModelConfigSchema_def PipelineConfigSchema_def
        PipelineCodeCommitSchema_def PipelineCodeCommitObject_def SupportedRegionSchema_def)

lemma map_of_outputs:
  "distinct (map fst prs) \<Longrightarrow>
   map_of (concat (map (\<lambda>pr. case fst (snd (snd pr)) of None \<Rightarrow> [] | Some v \<Rightarrow> [(fst pr, v)]) prs)) k
   = (case map_of prs k of None \<Rightarrow> None | Some r \<Rightarrow> fst (snd r))"
proof (induction prs)
  case Nil
  then show ?case by simp
next
  case (Cons pr prs)
  obtain a st v iss where pr: "pr = (a, st, v, iss)" by (cases pr) auto
  from Cons.prems have na: "a \<notin> fst ` set prs" and d: "distinct (map fst prs)"
    using pr by auto
  from na have none: "map_of prs a = None" by (simp add: map_of_eq_None_iff)
  show ?case
  proof (cases "k = a")
    case True
    with pr none Cons.IH [OF d] show ?thesis by (cases v) auto
  next
    case False
    with pr Cons.IH [OF d] show ?thesis by (cases v) auto
  qed
qed

lemma zobject_not_aborted:
  assumes "sch = ZObject fs" "fst (z_parse H sch p d) \<noteq> Aborted"
  shows "\<exists>kvs. d = Some (JObj kvs)"
  using assms by (auto simp: invalid_def split: option.splits json.splits)

lemma zobject_field_status:
  assumes "sch = ZObject fs" "d = Some (JObj kvs)" "(k, t) \<in> set fs"
  shows "fst (z_parse H sch p d) = Valid \<Longrightarrow> fst (z_parse H t (p @ [Key k]) (map_of kvs k)) = Valid"
    and "fst (z_parse H sch p d) \<noteq> Aborted \<Longrightarrow> fst (z_parse H t (p @ [Key k]) (map_of kvs k)) \<noteq> Aborted"
proof -
  let ?g = "\<lambda>f. fst (z_parse H (snd f) (p @ [Key (fst f)]) (map_of kvs (fst f)))"
  have mem: "?g (k, t) \<in> set (map ?g fs)"
    unfolding set_map using assms(3) by (rule imageI)
  have st: "fst (z_parse H sch p d) = merge_status Valid (map ?g fs)"
    using assms(1,2) by (simp add: merge_object_def Let_def comp_def)
  {
    assume "fst (z_parse H sch p d) = Valid"
    with st have "merge_status Valid (map ?g fs) = Valid" by metis
    then have "\<forall>x\<in>set (map ?g fs). x = Valid" by (simp only: merge_status_Valid) simp
    with mem have "?g (k, t) = Valid" by blast
    then show "fst (z_parse H t (p @ [Key k]) (map_of kvs k)) = Valid" by simp
  }
  {
    assume "fst (z_parse H sch p d) \<noteq> Aborted"
    with st have "merge_status Valid (map ?g fs) \<noteq> Aborted" by metis
    then have "Aborted \<notin> set (map ?g fs)" using merge_status_Aborted [of Valid "map ?g fs"] by simp
    with mem have "?g (k, t) \<noteq> Aborted" by metis
    then show "fst (z_parse H t (p @ [Key k]) (map_of kvs k)) \<noteq> Aborted" by simp
  }
qed

lemma zobject_field_value:
  assumes "sch = ZObject fs" "d = Some (JObj kvs)" "fst (z_parse H sch p d) \<noteq> Aborted"
    and "distinct (map fst fs)"
  shows "field (fst (snd (z_parse H sch p d))) k
         = (case map_of fs k of
              None \<Rightarrow> None
            | Some t \<Rightarrow> fst (snd (z_parse H t (p @ [Key k]) (map_of kvs k))))"
proof -
  let ?prs = "map (\<lambda>f. (fst f, z_parse H (snd f) (p @ [Key (fst f)]) (map_of kvs (fst f)))) fs"
  have dist: "distinct (map fst ?prs)" using assms(4) by (simp add: comp_def)
  have mo: "map_of ?prs k = (case map_of fs k of None \<Rightarrow> None
              | Some t \<Rightarrow> Some (z_parse H t (p @ [Key k]) (map_of kvs k)))"
    by (induction fs) auto
  from assms(1,2,3) have "fst (snd (z_parse H sch p d))
      = Some (JObj (concat (map (\<lambda>pr. case fst (snd (snd pr)) of None \<Rightarrow> [] | Some v \<Rightarrow> [(fst pr, v)]) ?prs)))"
    by (simp add: merge_object_def Let_def split: if_splits)
  then show ?thesis
    using map_of_outputs [OF dist, of k] mo by (simp split: option.splits)
qed

lemma zobject_issues:
  assumes "sch = ZObject fs" "d = Some (JObj kvs)"
  shows "snd (snd (z_parse H sch p d))
         = concat (map (\<lambda>f. snd (snd (z_parse H (snd f) (p @ [Key (fst f)]) (map_of kvs (fst f))))) fs)"
  using assms by (simp add: merge_object_issues comp_def)

lemma zrefine_Valid:
  assumes "sch = ZRefine t chk msg rp" "fst (z_parse H sch p d) = Valid"
  shows "fst (z_parse H t p d) = Valid"
    and "chk (fst (snd (z_parse H t p d)))"
    and "fst (snd (z_parse H sch p d)) = fst (snd (z_parse H t p d))"
  using assms
  by (cases "z_parse H t p d"; cases "fst (z_parse H t p d)"; auto split: if_splits)+

lemma zoptional_string_Valid:
  assumes "fst (z_parse H (ZOptional (ZString cs)) p d) = Valid"
  shows "fst (snd (z_parse H (ZOptional (ZString cs)) p d)) = d"
    and "d = None \<or> (\<exists>s. d = Some (JStr s) \<and> (\<forall>c\<in>set cs. \<not> check_fails H s c))"
proof -
  show "fst (snd (z_parse H (ZOptional (ZString cs)) p d)) = d"
    using assms by (auto simp: invalid_def Let_def split: option.splits json.splits)
  show "d = None \<or> (\<exists>s. d = Some (JStr s) \<and> (\<forall>c\<in>set cs. \<not> check_fails H s c))"
  proof (cases d)
    case None
    then show ?thesis by simp
  next
    case (Some x)
    with assms obtain s where s: "x = JStr s"
      by (cases x) (auto simp: invalid_def)
    with Some assms have "concat (map (string_check H p s) cs) = []"
      by (auto simp: Let_def dirty_if_def split: if_splits)
    then have "length (concat (map (string_check H p s) cs)) = 0" by (simp only: list.size)
    then have "length (filter (check_fails H s) cs) = 0"
      by (simp only: string_checks_length)
    then have "\<forall>c\<in>set cs. \<not> check_fails H s c"
      by (simp add: filter_empty_conv)
    with Some s show ?thesis by simp
  qed
qed

lemma zoptional_boolean_Valid:
  assumes "fst (z_parse H (ZOptional ZBoolean) p d) = Valid"
  shows "fst (snd (z_parse H (ZOptional ZBoolean) p d)) = d"
    and "d = None \<or> (\<exists>b. d = Some (JBool b))"
proof -
  show "fst (snd (z_parse H (ZOptional ZBoolean) p d)) = d"
    using assms by (auto simp: invalid_def split: option.splits json.splits)
  show "d = None \<or> (\<exists>b. d = Some (JBool b))"
  proof (cases d)
    case None
    then show ?thesis by simp
  next
    case (Some x)
    with assms show ?thesis by (cases x) (auto simp: invalid_def)
  qed
qed

lemma lookup_single: "lookup (JObj kvs) [k] = map_of kvs k"
  by (simp split: option.splits)

lemma codecommit_valid_exactly_one:
  assumes "fst (z_parse H PipelineCodeCommitSchema p (Some cc)) = Valid"
  shows "(lookup cc [''existingRepositoryName''] \<noteq> None)
         \<noteq> (lookup cc [''createNew''] = Some (JBool True))"
proof -
  let ?inner = "ZRefine PipelineCodeCommitObject codecommit_choice_rule
          (Msg ''Provide either existingRepositoryName OR createNew: true, not both'') []"
  from zrefine_Valid(1) [OF PipelineCodeCommitSchema_def assms]
  have iv: "fst (z_parse H ?inner p (Some cc)) = Valid" .
  from zrefine_Valid(1,2) [OF refl iv]
  have ov: "fst (z_parse H PipelineCodeCommitObject p (Some cc)) = Valid"
    and rule: "codecommit_choice_rule (fst (snd (z_parse H PipelineCodeCommitObject p (Some cc))))"
    by simp_all
  from ov have na: "fst (z_parse H PipelineCodeCommitObject p (Some cc)) \<noteq> Aborted" by simp
  from zobject_not_aborted [OF PipelineCodeCommitObject_def na]
  obtain kvs where cc: "cc = JObj kvs" by auto
  note fv = zobject_field_value [OF PipelineCodeCommitObject_def _ na, of kvs]
  note fs = zobject_field_status(1) [OF PipelineCodeCommitObject_def _ _ ov, of kvs]
  have e_st: "fst (z_parse H (ZOptional (ZString [Min 1 DefaultMsg, Max 100 DefaultMsg,
          Regex re_repositoryName
            (Msg ''Invalid CodeCommit repository name. Only alphanumeric, dots, hyphens, and underscores.'')]))
          (p @ [Key ''existingRepositoryName'']) (map_of kvs ''existingRepositoryName'')) = Valid"
    by (rule fs) (simp_all add: cc)
  have c_st: "fst (z_parse H (ZOptional ZBoolean) (p @ [Key ''createNew'']) (map_of kvs ''createNew'')) = Valid"
    by (rule fs) (simp_all add: cc)
  have e_val: "field (fst (snd (z_parse H PipelineCodeCommitObject p (Some cc)))) ''existingRepositoryName''
        = map_of kvs ''existingRepositoryName''"
    using fv [of "''existingRepositoryName''"] zoptional_string_Valid(1) [OF e_st] cc by simp
  have c_val: "field (fst (snd (z_parse H PipelineCodeCommitObject p (Some cc)))) ''createNew''
        = map_of kvs ''createNew''"
    using fv [of "''createNew''"] zoptional_boolean_Valid(1) [OF c_st] cc by simp
  from zoptional_string_Valid(2) [OF e_st]
  have e_truth: "truthy (map_of kvs ''existingRepositoryName'') = (map_of kvs ''existingRepositoryName'' \<noteq> None)"
    by auto
  from zoptional_boolean_Valid(2) [OF c_st]
  have c_truth: "truthy (map_of kvs ''createNew'') = (map_of kvs ''createNew'' = Some (JBool True))"
    by auto
  from rule have "truthy (map_of kvs ''existingRepositoryName'') \<noteq> truthy (map_of kvs ''createNew'')"
    unfolding codecommit_choice_rule_def e_val c_val .
  then have "(map_of kvs ''existingRepositoryName'' \<noteq> None)
             \<noteq> (map_of kvs ''createNew'' = Some (JBool True))"
    unfolding e_truth c_truth .
  then show ?thesis unfolding cc lookup_single .
qed

section \<open>No manifest\<close>

text \<open>
  C9. When the locator finds no manifest file (none of the candidate paths exists),
  \<^verbatim>\<open>loadConfig\<close> returns the base configuration itself and no change record.
\<close>

theorem loadConfig_without_manifest:
  assumes "findManifestFile F = None"
  shows "loadConfig H F baseConfig = Inr (baseConfig, [])"
  using assms by (simp add: loadConfig_def loadDeploymentManifest_def)

theorem loadConfig_without_manifest_witness:
  "findManifestFile no_manifest = None
   \<and> loadConfig sample_host no_manifest sample_base = Inr (sample_base, [])"
proof -
  have none: "findManifestFile no_manifest = None"
    by (simp add: findManifestFile_def searchPaths_def no_manifest_def)
  show ?thesis
    using none loadConfig_without_manifest [OF none, of sample_host sample_base] by simp
qed

section \<open>Fields that the override supplies\<close>

lemma steps_defs:
  "override_steps = [Ovr [''prefix''],
      Ovr [''enableWaf''],
      Ovr [''createCMKs''],
      Ovr [''advancedMonitoring''],
      Ovr [''disableS3AccessLogs''],
      OvrNonEmpty [''logArchiveBucketName''],
      Ovr [''privateWebsite''],
      Ovr [''certificate''],
      Ovr [''domain''],
      When (Present [''vpc'']) vpc_steps,
      When (Present [''cognitoFederation'']) cognito_steps,
      When (PresentChained [''bedrock''] ''guardrails'') guardrails_steps,
      When (Present [''rag'']) rag_steps,
      When (Present [''pipeline'']) [ReplacePipeline]]"
  by (simp add: override_steps_def)

lemma apply_run:
  assumes "applyManifestOverrides b m = Inr (cfg, log)"
  shows "\<exists>s. exec_list m override_steps \<lparr>config = b, changes = [], overrideCount = 0\<rparr> = Inr s
             \<and> cfg = config s \<and> log = changes s"
  using assms by (auto simp: applyManifestOverrides_def deep_clone_def split: sum.splits)

lemma hits_all_fields:
  "list_all (\<lambda>p. p = [''logArchiveBucketName''] \<or> hits_list m p override_steps)
     (scalar_fields @ list_fields)"
  by (simp add: scalar_fields_def list_fields_def override_steps_def vpc_steps_def
        cognito_steps_def guardrails_steps_def rag_steps_def)

lemma hits_sentinel:
  "lookup m [''logArchiveBucketName''] \<noteq> Some (JStr [])
   \<Longrightarrow> hits_list m [''logArchiveBucketName''] override_steps"
  by (simp add: override_steps_def vpc_steps_def cognito_steps_def guardrails_steps_def rag_steps_def)

lemma leaf_hits:
  assumes "p \<in> set scalar_fields \<or> p \<in> set list_fields"
    and "p = [''logArchiveBucketName''] \<longrightarrow> lookup m p \<noteq> Some (JStr [])"
  shows "hits_list m p override_steps"
proof (cases "p = [''logArchiveBucketName'']")
  case True
  with assms(2) show ?thesis using hits_sentinel by simp
next
  case False
  from assms(1) have "p \<in> set (scalar_fields @ list_fields)" by auto
  with hits_all_fields [of m] have "p = [''logArchiveBucketName''] \<or> hits_list m p override_steps"
    unfolding list_all_iff by blast
  with False show ?thesis by simp
qed

lemma leaf_replaced:
  assumes "applyManifestOverrides b m = Inr (cfg, log)"
    and "p \<in> set scalar_fields \<or> p \<in> set list_fields"
    and "lookup m p = Some v"
    and "p = [''logArchiveBucketName''] \<longrightarrow> v \<noteq> JStr []"
  shows "lookup cfg p = Some v
       \<and> (\<exists>old. filter (\<lambda>c. cpath c = p) log = [\<lparr>cpath = p, old_value = old, new_value = Some v\<rparr>])"
proof -
  from apply_run [OF assms(1)] obtain s where
    run: "exec_list m override_steps \<lparr>config = b, changes = [], overrideCount = 0\<rparr> = Inr s"
    and cfg: "cfg = config s" and log: "log = changes s" by blast
  from assms(3,4) have "p = [''logArchiveBucketName''] \<longrightarrow> lookup m p \<noteq> Some (JStr [])" by auto
  with assms(2) have h: "hits_list m p override_steps" by (rule leaf_hits)
  from hits_performs(2) [OF h assms(3) run] cfg log show ?thesis
    by (simp add: recs_def)
qed

lemma union_with_empty_literal:
  "z_parse H (ZUnion [ZOptional (ZString cs), ZLiteral (JStr [])]) p (Some (JStr []))
     = (Valid, Some (JStr []), [])"
  by (auto simp: Let_def dirty_if_def)

lemma union_with_empty_literal_absent:
  "z_parse H (ZUnion [ZOptional (ZString cs), ZLiteral (JStr [])]) p None = (Valid, None, [])"
  by simp

lemma manifest_shape_distinct:
  "DeploymentManifestSchema = ZObject fs \<Longrightarrow> distinct (map fst fs)"
  by (auto simp: DeploymentManifestSchema_def)

lemma empty_logArchiveBucketName_errors:
  assumes "map_of kvs ''logArchiveBucketName'' = Some (JStr [])"
  shows "validation_errors H (Some (JObj kvs))
         = validation_errors H (Some (JObj (AList.delete ''logArchiveBucketName'' kvs)))"
  using assms
  by (simp add: validation_errors_def DeploymentManifestSchema_def merge_object_issues
        delete_conv' union_with_empty_literal union_with_empty_literal_absent
        del: z_parse.simps(10) union_result.simps)

lemma safeParse_Inr:
  "safeParse H t d = Inr v \<longleftrightarrow> fst (z_parse H t [] d) = Valid \<and> fst (snd (z_parse H t [] d)) = v"
  by (cases "z_parse H t [] d"; cases "fst (z_parse H t [] d)") (auto simp: safeParse_def)

lemma field_lookup: "field (Some m) k = Some x \<Longrightarrow> lookup m [k] = Some x"
  by (cases m) auto

lemma validated_field:
  assumes "safeParse H DeploymentManifestSchema (Some (JObj kvs)) = Inr m"
    and "DeploymentManifestSchema = ZObject fs"
  shows "field m k = (case map_of fs k of
                        None \<Rightarrow> None
                      | Some t \<Rightarrow> fst (snd (z_parse H t [Key k] (map_of kvs k))))"
proof -
  from assms(1) have v: "fst (z_parse H DeploymentManifestSchema [] (Some (JObj kvs))) = Valid"
    and m: "fst (snd (z_parse H DeploymentManifestSchema [] (Some (JObj kvs)))) = m"
    by (simp_all add: safeParse_Inr)
  from v have na: "fst (z_parse H DeploymentManifestSchema [] (Some (JObj kvs))) \<noteq> Aborted" by simp
  from zobject_field_value [OF assms(2) refl na manifest_shape_distinct [OF assms(2)], of k] m
  show ?thesis by (simp cong: option.case_cong)
qed

lemma validated_logArchiveBucketName:
  assumes "safeParse H DeploymentManifestSchema (Some (JObj kvs)) = Inr (Some m)"
    and "map_of kvs ''logArchiveBucketName'' = Some (JStr [])"
  shows "lookup m [''logArchiveBucketName''] = Some (JStr [])"
proof -
  from validated_field [OF assms(1) DeploymentManifestSchema_def, of "''logArchiveBucketName''"] assms(2)
  have "field (Some m) ''logArchiveBucketName'' = Some (JStr [])"
    by (simp add: union_with_empty_literal del: z_parse.simps(10))
  then show ?thesis by (rule field_lookup)
qed

lemma validated_certificate:
  assumes "safeParse H DeploymentManifestSchema (Some (JObj kvs)) = Inr (Some m)"
    and "map_of kvs ''certificate'' = Some (JStr [])"
  shows "lookup m [''certificate''] = Some (JStr [])"
proof -
  from validated_field [OF assms(1) DeploymentManifestSchema_def, of "''certificate''"] assms(2)
  have "field (Some m) ''certificate'' = Some (JStr [])"
    by (simp add: union_with_empty_literal del: z_parse.simps(10))
  then show ?thesis by (rule field_lookup)
qed

lemma empty_certificate_errors:
  assumes "map_of kvs ''certificate'' = Some (JStr [])"
  shows "validation_errors H (Some (JObj kvs))
         = validation_errors H (Some (JObj (AList.delete ''certificate'' kvs)))"
  using assms
  by (simp add: validation_errors_def DeploymentManifestSchema_def merge_object_issues
        delete_conv' union_with_empty_literal union_with_empty_literal_absent
        del: z_parse.simps(10) union_result.simps)

lemma empty_bucket_untouched:
  assumes "applyManifestOverrides b m = Inr (cfg, log)"
    and "lookup m [''logArchiveBucketName''] = Some (JStr [])"
  shows "lookup cfg [''logArchiveBucketName''] = lookup b [''logArchiveBucketName'']
       \<and> filter (\<lambda>c. cpath c = [''logArchiveBucketName'']) log = []"
proof -
  from apply_run [OF assms(1)] obtain s where
    run: "exec_list m override_steps \<lparr>config = b, changes = [], overrideCount = 0\<rparr> = Inr s"
    and cfg: "cfg = config s" and log: "log = changes s" by blast
  from assms(2) have safe: "list_all (fsafe m [''logArchiveBucketName''] []) override_steps"
    by (simp add: override_steps_def vpc_steps_def cognito_steps_def guardrails_steps_def
          rag_steps_def)
  from fsafe_frame(2) [OF safe _ run] cfg log show ?thesis by (simp add: recs_def)
qed

text \<open>
  C8. An override document whose \<^verbatim>\<open>logArchiveBucketName\<close> is the empty string has exactly the
  validation errors it has without that field (so it validates whenever the rest of it does),
  and whenever it validates and is merged, the resolved configuration keeps the base
  configuration's \<^verbatim>\<open>logArchiveBucketName\<close> and no change record names that field.
\<close>

theorem empty_logArchiveBucketName_is_absent:
  assumes "map_of kvs ''logArchiveBucketName'' = Some (JStr [])"
  shows "validation_errors H (Some (JObj kvs))
           = validation_errors H (Some (JObj (AList.delete ''logArchiveBucketName'' kvs)))
       \<and> (\<forall>m baseConfig cfg log.
             safeParse H DeploymentManifestSchema (Some (JObj kvs)) = Inr (Some m)
             \<longrightarrow> applyManifestOverrides baseConfig m = Inr (cfg, log)
             \<longrightarrow> lookup cfg [''logArchiveBucketName''] = lookup baseConfig [''logArchiveBucketName'']
               \<and> filter (\<lambda>c. cpath c = [''logArchiveBucketName'']) log = [])"
  using empty_logArchiveBucketName_errors [OF assms]
    validated_logArchiveBucketName [OF _ assms] empty_bucket_untouched
  by blast

text \<open>
  C10. An override document whose \<^verbatim>\<open>certificate\<close> is the empty string has exactly the
  validation errors it has without that field, and whenever it validates and is merged, the
  resolved configuration's \<^verbatim>\<open>certificate\<close> is the empty string and exactly one change record
  names the field, with the empty string as its new value.
\<close>

theorem empty_certificate_overrides:
  assumes "map_of kvs ''certificate'' = Some (JStr [])"
  shows "validation_errors H (Some (JObj kvs))
           = validation_errors H (Some (JObj (AList.delete ''certificate'' kvs)))
       \<and> (\<forall>m baseConfig cfg log.
             safeParse H DeploymentManifestSchema (Some (JObj kvs)) = Inr (Some m)
             \<longrightarrow> applyManifestOverrides baseConfig m = Inr (cfg, log)
             \<longrightarrow> lookup cfg [''certificate''] = Some (JStr [])
               \<and> (\<exists>old. filter (\<lambda>c. cpath c = [''certificate'']) log
                          = [\<lparr>cpath = [''certificate''], old_value = old, new_value = Some (JStr [])\<rparr>]))"
proof (intro conjI allI impI)
  show "validation_errors H (Some (JObj kvs))
        = validation_errors H (Some (JObj (AList.delete ''certificate'' kvs)))"
    by (rule empty_certificate_errors [OF assms])
next
  fix m baseConfig cfg log
  assume v: "safeParse H DeploymentManifestSchema (Some (JObj kvs)) = Inr (Some m)"
    and run: "applyManifestOverrides baseConfig m = Inr (cfg, log)"
  from validated_certificate [OF v assms] have l: "lookup m [''certificate''] = Some (JStr [])" .
  have mem: "[''certificate''] \<in> set scalar_fields \<or> [''certificate''] \<in> set list_fields"
    by (simp add: scalar_fields_def)
  from leaf_replaced [OF run mem l]
  show "lookup cfg [''certificate''] = Some (JStr [])"
    and "\<exists>old. filter (\<lambda>c. cpath c = [''certificate'']) log
          = [\<lparr>cpath = [''certificate''], old_value = old, new_value = Some (JStr [])\<rparr>]"
    by simp_all
qed

text \<open>
  C5. Whenever the merge returns, a list-valued field that the override document supplies
  holds exactly the override's list in the resolved configuration, whatever list the base
  configuration had.
\<close>

theorem list_field_replaced_wholesale:
  assumes "applyManifestOverrides baseConfig manifest = Inr (cfg, log)"
    and "p \<in> set list_fields"
    and "lookup manifest p = Some (JArr xs)"
  shows "lookup cfg p = Some (JArr xs)"
proof -
  from assms(2) have "p \<noteq> [''logArchiveBucketName'']" by (auto simp: list_fields_def)
  with leaf_replaced [OF assms(1) _ assms(3)] assms(2) show ?thesis by simp
qed

theorem list_field_replaced_wholesale_witness:
  "[''rag'', ''embeddingsModels''] \<in> set list_fields
   \<and> lookup sample_base [''rag'', ''embeddingsModels'']
       = Some (JArr [JObj [(''provider'', JStr ''bedrock''), (''name'', JStr ''m1'')],
                     JObj [(''provider'', JStr ''bedrock''), (''name'', JStr ''m2'')],
                     JObj [(''provider'', JStr ''sagemaker''), (''name'', JStr ''m3'')]])
   \<and> lookup one_model_override [''rag'', ''embeddingsModels'']
       = Some (JArr [JObj [(''provider'', JStr ''bedrock''), (''name'', JStr ''titan'')]])
   \<and> config_at (applyManifestOverrides sample_base one_model_override) [''rag'', ''embeddingsModels'']
       = Some (JArr [JObj [(''provider'', JStr ''bedrock''), (''name'', JStr ''titan'')]])"
proof -
  have "\<not> isl (applyManifestOverrides sample_base one_model_override)" by code_simp
  then obtain cfg log where run: "applyManifestOverrides sample_base one_model_override = Inr (cfg, log)"
    by (cases "applyManifestOverrides sample_base one_model_override") auto
  have mem: "[''rag'', ''embeddingsModels''] \<in> set list_fields" by (simp add: list_fields_def)
  have m: "lookup one_model_override [''rag'', ''embeddingsModels'']
       = Some (JArr [JObj [(''provider'', JStr ''bedrock''), (''name'', JStr ''titan'')]])"
    by (simp add: one_model_override_def)
  have b: "lookup sample_base [''rag'', ''embeddingsModels'']
       = Some (JArr [JObj [(''provider'', JStr ''bedrock''), (''name'', JStr ''m1'')],
                     JObj [(''provider'', JStr ''bedrock''), (''name'', JStr ''m2'')],
                     JObj [(''provider'', JStr ''sagemaker''), (''name'', JStr ''m3'')]])"
    by (simp add: sample_base_def)
  from list_field_replaced_wholesale [OF run mem m] run mem m b show ?thesis
    by (simp add: config_at_def)
qed

text \<open>
  The pipeline group is rebuilt by the last block of the merge from the override's group alone.
  Each scalar member that the override's group holds is a member of the rebuilt group with
  the same value; \<^verbatim>\<open>requireApproval\<close> is \<^verbatim>\<open>manifest.pipeline.requireApproval ?? true\<close>, so the
  value \<^verbatim>\<open>null\<close> would be replaced by \<^verbatim>\<open>true\<close>.
\<close>

lemma exec_list_append:
  "exec_list m (xs @ ys) s = (case exec_list m xs s of Inl e \<Rightarrow> Inl e | Inr s' \<Rightarrow> exec_list m ys s')"
  by (induction xs arbitrary: s) (auto split: sum.splits)

lemma map_of_literal:
  "distinct (map fst ms) \<Longrightarrow>
   map_of (concat (map (\<lambda>kv. case snd kv of None \<Rightarrow> [] | Some w \<Rightarrow> [(fst kv, w)]) ms)) k
   = (case map_of ms k of None \<Rightarrow> None | Some r \<Rightarrow> r)"
proof (induction ms)
  case Nil
  then show ?case by simp
next
  case (Cons kv ms)
  obtain a r where kv: "kv = (a, r)" by (cases kv) auto
  from Cons.prems have na: "a \<notin> fst ` set ms" and d: "distinct (map fst ms)"
    using kv by auto
  from na have none: "map_of ms a = None" by (simp add: map_of_eq_None_iff)
  show ?case
  proof (cases "k = a")
    case True
    with kv none Cons.IH [OF d] show ?thesis by (cases r) auto
  next
    case False
    with kv Cons.IH [OF d] show ?thesis by (cases r) auto
  qed
qed

lemma lookup_literal:
  "distinct (map fst ms) \<Longrightarrow>
   lookup (object_literal ms) (k # ks)
   = (case map_of ms k of None \<Rightarrow> None | Some None \<Rightarrow> None | Some (Some w) \<Rightarrow> lookup w ks)"
  by (simp add: object_literal_def map_of_literal split: option.splits)

lemma js_prop_field: "v \<noteq> None \<Longrightarrow> v \<noteq> Some JNull \<Longrightarrow> js_prop v k = Inr (field v k)"
  by (cases "(v, k)" rule: js_prop.cases) auto

lemma js_prop_fails: "v = None \<or> v = Some JNull \<Longrightarrow> js_prop v k = Inl TypeError"
  by auto

lemma js_read_two: "js_read (Some (JObj kvs)) [a, k] = js_prop (map_of kvs a) k"
  by (simp split: sum.splits)

lemma pipeline_value_fails:
  assumes "map_of kvs ''codecommit'' = None \<or> map_of kvs ''codecommit'' = Some JNull"
  shows "pipeline_value (Some (JObj kvs)) = Inl TypeError"
  unfolding pipeline_value_def js_read_two js_prop.simps(3) js_prop_fails [OF assms]
  by (simp only: sum.case)

lemma pipeline_value_literal:
  assumes a: "map_of kvs ''codecommit'' \<noteq> None" and b: "map_of kvs ''codecommit'' \<noteq> Some JNull"
  shows "pipeline_value (Some (JObj kvs)) = Inr (object_literal
          [(''enabled'', map_of kvs ''enabled''),
           (''codecommit'', Some (object_literal
              [(''existingRepositoryName'', field (map_of kvs ''codecommit'') ''existingRepositoryName''),
               (''createNew'', field (map_of kvs ''codecommit'') ''createNew''),
               (''newRepositoryName'', field (map_of kvs ''codecommit'') ''newRepositoryName''),
               (''seedOnCreate'', field (map_of kvs ''codecommit'') ''seedOnCreate'')])),
           (''branch'', map_of kvs ''branch''),
           (''requireApproval'',
              (if map_of kvs ''requireApproval'' = None \<or> map_of kvs ''requireApproval'' = Some JNull
               then Some (JBool True) else map_of kvs ''requireApproval'')),
           (''notificationEmail'', map_of kvs ''notificationEmail'')])"
  unfolding pipeline_value_def js_read_two js_prop.simps(3) js_prop_field [OF a b]
  by (simp only: sum.case)

lemma pipeline_value_object:
  assumes "pipeline_value (Some (JObj kvs)) = Inr w"
  shows "w = object_literal
          [(''enabled'', map_of kvs ''enabled''),
           (''codecommit'', Some (object_literal
              [(''existingRepositoryName'', field (map_of kvs ''codecommit'') ''existingRepositoryName''),
               (''createNew'', field (map_of kvs ''codecommit'') ''createNew''),
               (''newRepositoryName'', field (map_of kvs ''codecommit'') ''newRepositoryName''),
               (''seedOnCreate'', field (map_of kvs ''codecommit'') ''seedOnCreate'')])),
           (''branch'', map_of kvs ''branch''),
           (''requireApproval'',
              (if map_of kvs ''requireApproval'' = None \<or> map_of kvs ''requireApproval'' = Some JNull
               then Some (JBool True) else map_of kvs ''requireApproval'')),
           (''notificationEmail'', map_of kvs ''notificationEmail'')]"
proof (cases "map_of kvs ''codecommit'' = None \<or> map_of kvs ''codecommit'' = Some JNull")
  case True
  from trans [OF sym [OF assms] pipeline_value_fails [OF True]] have False
    by (simp only: sum.distinct)
  then show ?thesis ..
next
  case False
  from False have a: "map_of kvs ''codecommit'' \<noteq> None"
    by (rule contrapos_nn) (rule disjI1)
  from False have b: "map_of kvs ''codecommit'' \<noteq> Some JNull"
    by (rule contrapos_nn) (rule disjI2)
  from trans [OF sym [OF assms] pipeline_value_literal [OF a b]] show ?thesis
    by (simp only: sum.inject)
qed

lemma lookup_field: "lookup v [k] = field (Some v) k"
  by (cases v) (auto split: option.splits)

lemma pipeline_value_member:
  assumes pv: "pipeline_value (Some pl) = Inr w"
    and mem: "''pipeline'' # r \<in> set pipeline_fields"
    and sup: "lookup pl r = Some x"
    and nn: "r = [''requireApproval''] \<longrightarrow> x \<noteq> JNull"
  shows "lookup w r = Some x"
proof -
  from mem have "r \<noteq> []" by (auto simp: pipeline_fields_def)
  with sup obtain kvs where pl: "pl = JObj kvs" by (cases pl; cases r) auto
  note w = pipeline_value_object [OF pv [unfolded pl]]
  have cc: "\<And>k. lookup (JObj kvs) [''codecommit'', k] = field (map_of kvs ''codecommit'') k"
    by (simp add: lookup_field split: option.splits)
  have "list_all (\<lambda>p. \<forall>x. lookup (JObj kvs) (tl p) = Some x
            \<longrightarrow> (tl p = [''requireApproval''] \<longrightarrow> x \<noteq> JNull) \<longrightarrow> lookup w (tl p) = Some x)
          pipeline_fields"
    unfolding w pipeline_fields_def
    by (simp add: lookup_literal cc lookup_single del: lookup.simps(2) lookup.simps(3))
  then have "\<forall>p\<in>set pipeline_fields. \<forall>x. lookup (JObj kvs) (tl p) = Some x
            \<longrightarrow> (tl p = [''requireApproval''] \<longrightarrow> x \<noteq> JNull) \<longrightarrow> lookup w (tl p) = Some x"
    unfolding list_all_iff .
  from bspec [OF this mem] have "\<forall>x. lookup (JObj kvs) (tl (''pipeline'' # r)) = Some x
            \<longrightarrow> (tl (''pipeline'' # r) = [''requireApproval''] \<longrightarrow> x \<noteq> JNull)
            \<longrightarrow> lookup w (tl (''pipeline'' # r)) = Some x" .
  with sup nn pl show ?thesis by simp
qed


lemma last_step:
  "override_steps = butlast override_steps @ [When (Present [''pipeline'']) [ReplacePipeline]]"
  by (simp add: override_steps_def)

lemma front_silent: "list_all (silent (''pipeline'' # r)) (butlast override_steps)"
  by (simp add: override_steps_def vpc_steps_def cognito_steps_def guardrails_steps_def
        rag_steps_def)

lemma js_prop_lookup: "js_prop (Some m) k = Inr x \<Longrightarrow> x = lookup m [k]"
  using js_read_lookup [of m "[k]" x] by (simp split: sum.splits)

lemma pipeline_member_copied:
  assumes run: "applyManifestOverrides b m = Inr (cfg, log)"
    and mem: "p \<in> set pipeline_fields"
    and sup: "lookup m p = Some v"
    and nn: "p = [''pipeline'', ''requireApproval''] \<longrightarrow> v \<noteq> JNull"
  shows "lookup cfg p = Some v
       \<and> filter (\<lambda>c. cpath c = p) log = []
       \<and> (\<exists>old. filter (\<lambda>c. cpath c = [''pipeline'']) log
                  = [\<lparr>cpath = [''pipeline''], old_value = old, new_value = lookup m [''pipeline'']\<rparr>])"
proof -
  from mem obtain r where p: "p = ''pipeline'' # r" and r: "r \<noteq> []"
    by (auto simp: pipeline_fields_def)
  from apply_run [OF run] obtain s where
    ex: "exec_list m override_steps \<lparr>config = b, changes = [], overrideCount = 0\<rparr> = Inr s"
    and cfg: "cfg = config s" and log: "log = changes s" by blast
  let ?s0 = "\<lparr>config = b, changes = [], overrideCount = 0\<rparr>"
  from ex have "exec_list m (butlast override_steps @ [When (Present [''pipeline'']) [ReplacePipeline]]) ?s0 = Inr s"
    by (simp only: last_step [symmetric])
  then obtain s1 where front: "exec_list m (butlast override_steps) ?s0 = Inr s1"
    and last: "exec m (When (Present [''pipeline'']) [ReplacePipeline]) s1 = Inr s"
    by (auto simp: exec_list_append split: sum.splits)
  from sup p have "lookup m ([''pipeline''] @ r) = Some v" by simp
  then obtain pl where pl: "lookup m [''pipeline''] = Some pl" and plr: "lookup pl r = Some v"
    unfolding lookup_append [of m "[''pipeline'']" r] by (auto split: option.splits)
  from last obtain g where g: "eval_guard m (Present [''pipeline'']) = Inr g"
    by (auto split: sum.splits)
  from guard_true [OF g _ pl] have "g" by simp
  with last g have rp: "replace_pipeline m s1 = Inr s"
    by (cases "replace_pipeline m s1") simp_all
  then obtain old pl' w c' where
    old: "js_prop (Some (config s1)) ''pipeline'' = Inr old"
    and pl': "js_prop (Some m) ''pipeline'' = Inr pl'"
    and w: "pipeline_value pl' = Inr w"
    and c': "js_write (config s1) [''pipeline''] w = Inr c'"
    and s: "s = \<lparr>config = c',
                 changes = changes s1 @ [\<lparr>cpath = [''pipeline''], old_value = old, new_value = pl'\<rparr>],
                 overrideCount = Suc (overrideCount s1)\<rparr>"
    unfolding replace_pipeline_def by (auto split: sum.splits)
  from js_prop_lookup [OF pl'] pl have pl'_eq: "pl' = Some pl" by simp
  have nn': "r = [''requireApproval''] \<longrightarrow> v \<noteq> JNull" using nn p by simp
  from mem p have mem': "''pipeline'' # r \<in> set pipeline_fields" by simp
  from pipeline_value_member [OF w [unfolded pl'_eq] mem' plr nn'] have "lookup w r = Some v" .
  with js_write_below [OF c', of r] have val: "lookup (config s) p = Some v" by (simp add: p s)
  from silent_recs(2) [OF front_silent front, of r] have r1: "recs p s1 = []"
    by (simp add: recs_def p)
  from silent_recs(2) [OF front_silent front, of "[]"] have r2: "recs [''pipeline''] s1 = []"
    by (simp add: recs_def)
  from r have ne: "[''pipeline''] \<noteq> p" by (simp add: p)
  from r1 ne have f1: "filter (\<lambda>c. cpath c = p) (changes s) = []"
    by (simp add: s recs_def)
  from r2 have f2: "filter (\<lambda>c. cpath c = [''pipeline'']) (changes s)
      = [\<lparr>cpath = [''pipeline''], old_value = old, new_value = lookup m [''pipeline'']\<rparr>]"
    by (simp add: s recs_def pl'_eq pl)
  from val f1 f2 show ?thesis unfolding cfg log by (intro conjI exI)
qed

text \<open>A validated document never holds \<^verbatim>\<open>null\<close> as \<^verbatim>\<open>pipeline.requireApproval\<close>: the schema
  declares a boolean with the default \<^verbatim>\<open>true\<close>.\<close>

lemma lookup_two_fields: "lookup m [a, b] = field (field (Some m) a) b"
proof (cases m)
  case (JObj kvs)
  show ?thesis
  proof (cases "map_of kvs a")
    case None
    with JObj show ?thesis by simp
  next
    case (Some w)
    with JObj show ?thesis by (cases w) (auto split: option.splits)
  qed
qed simp_all

lemma default_boolean_value:
  assumes "fst (z_parse H (ZDefault (ZOptional ZBoolean) (JBool b)) p d) = Valid"
  shows "fst (snd (z_parse H (ZDefault (ZOptional ZBoolean) (JBool b)) p d)) \<noteq> Some JNull"
  using assms by (auto simp: invalid_def split: option.splits json.splits if_splits)

lemma validated_requireApproval:
  assumes "safeParse H DeploymentManifestSchema (Some raw) = Inr (Some m)"
  shows "lookup m [''pipeline'', ''requireApproval''] \<noteq> Some JNull"
proof -
  from assms have v: "fst (z_parse H DeploymentManifestSchema [] (Some raw)) = Valid"
    by (simp add: safeParse_Inr)
  then have "fst (z_parse H DeploymentManifestSchema [] (Some raw)) \<noteq> Aborted" by simp
  from zobject_not_aborted [OF DeploymentManifestSchema_def this] obtain kvs where
    raw: "raw = JObj kvs" by auto
  from validated_field [OF assms [unfolded raw] DeploymentManifestSchema_def, of "''pipeline''"]
  have f: "field (Some m) ''pipeline''
      = fst (snd (z_parse H (ZOptional PipelineConfigSchema) [Key ''pipeline''] (map_of kvs ''pipeline'')))"
    by simp
  show ?thesis
  proof (cases "map_of kvs ''pipeline''")
    case None
    with f show ?thesis by (simp add: lookup_two_fields)
  next
    case (Some plraw)
    have "fst (z_parse H (ZOptional PipelineConfigSchema) ([] @ [Key ''pipeline'']) (map_of kvs ''pipeline'')) = Valid"
      by (rule zobject_field_status(1) [OF DeploymentManifestSchema_def _ _ v]) (simp_all add: raw)
    with Some have pv: "fst (z_parse H PipelineConfigSchema [Key ''pipeline''] (Some plraw)) = Valid"
      by simp
    then have na: "fst (z_parse H PipelineConfigSchema [Key ''pipeline''] (Some plraw)) \<noteq> Aborted" by simp
    from zobject_not_aborted [OF PipelineConfigSchema_def na] obtain pkvs where
      plraw: "plraw = JObj pkvs" by auto
    have d: "distinct (map fst
       [(''enabled'', ZBoolean),
        (''codecommit'', PipelineCodeCommitSchema),
        (''branch'', ZDefault (ZString [Min 1 DefaultMsg]) (JStr ''main'')),
        (''requireApproval'', ZDefault (ZOptional ZBoolean) (JBool True)),
        (''notificationEmail'', ZOptional (ZString [Email (Msg ''Invalid email address'')]))])"
      by simp
    from zobject_field_value [OF PipelineConfigSchema_def plraw [THEN arg_cong, of Some] na d, of "''requireApproval''"]
    have fv: "field (fst (snd (z_parse H PipelineConfigSchema [Key ''pipeline''] (Some plraw)))) ''requireApproval''
       = fst (snd (z_parse H (ZDefault (ZOptional ZBoolean) (JBool True))
                     [Key ''pipeline'', Key ''requireApproval''] (map_of pkvs ''requireApproval'')))"
      by simp
    have "fst (z_parse H (ZDefault (ZOptional ZBoolean) (JBool True))
             ([Key ''pipeline''] @ [Key ''requireApproval'']) (map_of pkvs ''requireApproval'')) = Valid"
      by (rule zobject_field_status(1) [OF PipelineConfigSchema_def _ _ pv]) (simp_all add: plraw)
    then have "fst (z_parse H (ZDefault (ZOptional ZBoolean) (JBool True))
             [Key ''pipeline'', Key ''requireApproval''] (map_of pkvs ''requireApproval'')) = Valid"
      by simp
    from default_boolean_value [OF this] fv f Some show ?thesis
      by (simp add: lookup_two_fields)
  qed
qed

text \<open>
  C4, as amended. Whenever the merge returns, a scalar field that the override document
  supplies - other than \<^verbatim>\<open>logArchiveBucketName\<close> supplied as the empty string - holds the
  override's value in the resolved configuration; this includes the scalar members of the
  pipeline group (for \<^verbatim>\<open>pipeline.requireApproval\<close> the value is not \<^verbatim>\<open>null\<close>, as in every
  validated document, see \<open>validated_requireApproval\<close>). For a field outside the pipeline
  group exactly one change record names its path, with the override's value as the new
  value; nothing is assumed about the base value, so the record is emitted also when it
  equals the override's value. For a member of the pipeline group no change record names
  its path: the group is logged by exactly one change record of path \<^verbatim>\<open>pipeline\<close>, whose new
  value is the override's pipeline group.
\<close>

theorem scalar_field_replaced:
  assumes "applyManifestOverrides baseConfig manifest = Inr (cfg, log)"
    and "p \<in> set scalar_fields \<or> p \<in> set pipeline_fields"
    and "lookup manifest p = Some v"
    and "p = [''logArchiveBucketName''] \<longrightarrow> v \<noteq> JStr []"
    and "p = [''pipeline'', ''requireApproval''] \<longrightarrow> v \<noteq> JNull"
  shows "lookup cfg p = Some v
       \<and> (p \<in> set scalar_fields
            \<longrightarrow> (\<exists>old. filter (\<lambda>c. cpath c = p) log
                         = [\<lparr>cpath = p, old_value = old, new_value = Some v\<rparr>]))
       \<and> (p \<in> set pipeline_fields
            \<longrightarrow> filter (\<lambda>c. cpath c = p) log = []
              \<and> (\<exists>old. filter (\<lambda>c. cpath c = [''pipeline'']) log
                         = [\<lparr>cpath = [''pipeline''], old_value = old,
                             new_value = lookup manifest [''pipeline'']\<rparr>]))"
proof -
  have a: "p \<in> set scalar_fields \<Longrightarrow> lookup cfg p = Some v
       \<and> (\<exists>old. filter (\<lambda>c. cpath c = p) log = [\<lparr>cpath = p, old_value = old, new_value = Some v\<rparr>])"
    using leaf_replaced [OF assms(1) _ assms(3,4)] by simp
  have b: "p \<in> set pipeline_fields \<Longrightarrow> lookup cfg p = Some v
       \<and> filter (\<lambda>c. cpath c = p) log = []
       \<and> (\<exists>old. filter (\<lambda>c. cpath c = [''pipeline'']) log
                  = [\<lparr>cpath = [''pipeline''], old_value = old, new_value = lookup manifest [''pipeline'']\<rparr>])"
    by (rule pipeline_member_copied [OF assms(1) _ assms(3,5)])
  from assms(2) a b show ?thesis by blast
qed

theorem scalar_field_replaced_witness:
  "[''prefix''] \<in> set scalar_fields
   \<and> lookup sample_base [''prefix''] = Some (JStr ''genai'')
   \<and> lookup empty_strings_override [''prefix''] = Some (JStr ''genai'')
   \<and> config_at (applyManifestOverrides sample_base empty_strings_override) [''prefix'']
       = Some (JStr ''genai'')
   \<and> length (records_for (applyManifestOverrides sample_base empty_strings_override) [''prefix'']) = 1
   \<and> [''pipeline'', ''branch''] \<in> set pipeline_fields
   \<and> lookup pipeline_base [''pipeline'', ''branch''] = Some (JStr ''main'')
   \<and> lookup release_override [''pipeline'', ''branch''] = Some (JStr ''release'')
   \<and> config_at (applyManifestOverrides pipeline_base release_override) [''pipeline'', ''branch'']
       = Some (JStr ''release'')
   \<and> records_for (applyManifestOverrides pipeline_base release_override) [''pipeline'', ''branch''] = []
   \<and> length (records_for (applyManifestOverrides pipeline_base release_override) [''pipeline'']) = 1"
proof -
  have "\<not> isl (applyManifestOverrides sample_base empty_strings_override)" by code_simp
  then obtain cfg log where run: "applyManifestOverrides sample_base empty_strings_override = Inr (cfg, log)"
    by (cases "applyManifestOverrides sample_base empty_strings_override") auto
  have mem: "[''prefix''] \<in> set scalar_fields" by (simp add: scalar_fields_def)
  have m: "lookup empty_strings_override [''prefix''] = Some (JStr ''genai'')"
    by (simp add: empty_strings_override_def)
  have b: "lookup sample_base [''prefix''] = Some (JStr ''genai'')"
    by (simp add: sample_base_def)
  have "\<not> isl (applyManifestOverrides pipeline_base release_override)" by code_simp
  then obtain cfg' log' where run': "applyManifestOverrides pipeline_base release_override = Inr (cfg', log')"
    by (cases "applyManifestOverrides pipeline_base release_override") auto
  have mem': "[''pipeline'', ''branch''] \<in> set pipeline_fields" by (simp add: pipeline_fields_def)
  have m': "lookup release_override [''pipeline'', ''branch''] = Some (JStr ''release'')"
    by (simp add: release_override_def)
  have b': "lookup pipeline_base [''pipeline'', ''branch''] = Some (JStr ''main'')"
    by (simp add: pipeline_base_def)
  have first: "config_at (applyManifestOverrides sample_base empty_strings_override) [''prefix'']
       = Some (JStr ''genai'')
     \<and> length (records_for (applyManifestOverrides sample_base empty_strings_override) [''prefix'']) = 1"
    using scalar_field_replaced [OF run disjI1 [OF mem] m] run mem
    by (auto simp: config_at_def records_for_def)
  have second: "config_at (applyManifestOverrides pipeline_base release_override) [''pipeline'', ''branch'']
       = Some (JStr ''release'')
     \<and> records_for (applyManifestOverrides pipeline_base release_override) [''pipeline'', ''branch''] = []
     \<and> length (records_for (applyManifestOverrides pipeline_base release_override) [''pipeline'']) = 1"
    using scalar_field_replaced [OF run' disjI2 [OF mem'] m'] run' mem'
    by (auto simp: config_at_def records_for_def)
  from first second mem m b mem' m' b' show ?thesis by simp
qed

theorem scalar_field_replaced_counterexample:
  "validateManifest sample_host (Some empty_strings_override) = Inr (Some empty_strings_override)
   \<and> lookup empty_strings_override [''logArchiveBucketName''] = Some (JStr [])
   \<and> config_at (applyManifestOverrides sample_base empty_strings_override) [''logArchiveBucketName'']
       = Some (JStr ''central-logs'')
   \<and> records_for (applyManifestOverrides sample_base empty_strings_override) [''logArchiveBucketName''] = []
   \<and> validateManifest sample_host (Some pipeline_override) = Inr (Some pipeline_override)
   \<and> lookup pipeline_override [''pipeline'', ''enabled''] = Some (JBool True)
   \<and> config_at (applyManifestOverrides sample_base pipeline_override) [''pipeline'', ''enabled'']
       = Some (JBool True)
   \<and> records_for (applyManifestOverrides sample_base pipeline_override) [''pipeline'', ''enabled''] = []"
  by code_simp

theorem empty_logArchiveBucketName_is_absent_witness:
  "map_of [(''prefix'', JStr ''genai''), (''logArchiveBucketName'', JStr []), (''certificate'', JStr [])]
       ''logArchiveBucketName'' = Some (JStr [])
   \<and> validation_errors sample_host (Some empty_strings_override) = []
   \<and> safeParse sample_host DeploymentManifestSchema (Some empty_strings_override)
       = Inr (Some empty_strings_override)
   \<and> lookup sample_base [''logArchiveBucketName''] = Some (JStr ''central-logs'')
   \<and> config_at (applyManifestOverrides sample_base empty_strings_override) [''logArchiveBucketName'']
       = Some (JStr ''central-logs'')
   \<and> records_for (applyManifestOverrides sample_base empty_strings_override) [''logArchiveBucketName''] = []"
proof -
  let ?kvs = "[(''prefix'', JStr ''genai''), (''logArchiveBucketName'', JStr []), (''certificate'', JStr [])]"
  have kv: "map_of ?kvs ''logArchiveBucketName'' = Some (JStr [])" by simp
  have doc: "empty_strings_override = JObj ?kvs" by (simp add: empty_strings_override_def)
  have errs: "validation_errors sample_host (Some empty_strings_override) = []" by code_simp
  have val: "safeParse sample_host DeploymentManifestSchema (Some (JObj ?kvs)) = Inr (Some (JObj ?kvs))"
    by code_simp
  have "\<not> isl (applyManifestOverrides sample_base (JObj ?kvs))" by code_simp
  then obtain cfg log where run: "applyManifestOverrides sample_base (JObj ?kvs) = Inr (cfg, log)"
    by (cases "applyManifestOverrides sample_base (JObj ?kvs)") auto
  have b: "lookup sample_base [''logArchiveBucketName''] = Some (JStr ''central-logs'')"
    by (simp add: sample_base_def)
  from empty_logArchiveBucketName_is_absent [OF kv, of sample_host] val run
  have "lookup cfg [''logArchiveBucketName''] = lookup sample_base [''logArchiveBucketName'']
        \<and> filter (\<lambda>c. cpath c = [''logArchiveBucketName'']) log = []"
    by blast
  with kv errs val run b doc show ?thesis
    by (simp add: config_at_def records_for_def)
qed

theorem empty_certificate_overrides_witness:
  "map_of [(''prefix'', JStr ''genai''), (''logArchiveBucketName'', JStr []), (''certificate'', JStr [])]
       ''certificate'' = Some (JStr [])
   \<and> validation_errors sample_host (Some empty_strings_override) = []
   \<and> safeParse sample_host DeploymentManifestSchema (Some empty_strings_override)
       = Inr (Some empty_strings_override)
   \<and> lookup sample_base [''certificate'']
       = Some (JStr ''arn:aws:acm:eu-west-1:123456789012:certificate/abc'')
   \<and> config_at (applyManifestOverrides sample_base empty_strings_override) [''certificate'']
       = Some (JStr [])
   \<and> map new_value (records_for (applyManifestOverrides sample_base empty_strings_override) [''certificate''])
       = [Some (JStr [])]"
proof -
  let ?kvs = "[(''prefix'', JStr ''genai''), (''logArchiveBucketName'', JStr []), (''certificate'', JStr [])]"
  have kv: "map_of ?kvs ''certificate'' = Some (JStr [])" by simp
  have doc: "empty_strings_override = JObj ?kvs" by (simp add: empty_strings_override_def)
  have errs: "validation_errors sample_host (Some empty_strings_override) = []" by code_simp
  have val: "safeParse sample_host DeploymentManifestSchema (Some (JObj ?kvs)) = Inr (Some (JObj ?kvs))"
    by code_simp
  have "\<not> isl (applyManifestOverrides sample_base (JObj ?kvs))" by code_simp
  then obtain cfg log where run: "applyManifestOverrides sample_base (JObj ?kvs) = Inr (cfg, log)"
    by (cases "applyManifestOverrides sample_base (JObj ?kvs)") auto
  have b: "lookup sample_base [''certificate'']
       = Some (JStr ''arn:aws:acm:eu-west-1:123456789012:certificate/abc'')"
    by (simp add: sample_base_def)
  from empty_certificate_overrides [OF kv, of sample_host] val run
  have "lookup cfg [''certificate''] = Some (JStr [])
        \<and> (\<exists>old. filter (\<lambda>c. cpath c = [''certificate'']) log
               = [\<lparr>cpath = [''certificate''], old_value = old, new_value = Some (JStr [])\<rparr>])"
    by blast
  with kv errs val run b doc show ?thesis
    by (auto simp: config_at_def records_for_def)
qed

section \<open>The repository choice of the pipeline\<close>

lemma lookup_two:
  assumes "lookup raw [a, b] = Some x"
  shows "\<exists>kvs pkvs. raw = JObj kvs \<and> map_of kvs a = Some (JObj pkvs) \<and> map_of pkvs b = Some x"
proof -
  from assms obtain kvs where raw: "raw = JObj kvs" by (cases raw) auto
  with assms obtain pl where pl: "map_of kvs a = Some pl" and l: "lookup pl [b] = Some x"
    by (auto split: option.splits)
  from l obtain pkvs where "pl = JObj pkvs" by (cases pl) auto
  with raw pl l show ?thesis by (auto split: option.splits)
qed

lemma validated_codecommit:
  assumes "safeParse H DeploymentManifestSchema (Some raw) = Inr m"
    and "lookup raw [''pipeline'', ''codecommit''] = Some cc"
  shows "fst (z_parse H PipelineCodeCommitSchema [Key ''pipeline'', Key ''codecommit''] (Some cc)) = Valid"
proof -
  from lookup_two [OF assms(2)] obtain kvs pkvs where raw: "raw = JObj kvs"
    and pl: "map_of kvs ''pipeline'' = Some (JObj pkvs)"
    and cc: "map_of pkvs ''codecommit'' = Some cc" by blast
  from assms(1) have v: "fst (z_parse H DeploymentManifestSchema [] (Some raw)) = Valid"
    by (simp add: safeParse_Inr)
  have "fst (z_parse H (ZOptional PipelineConfigSchema) ([] @ [Key ''pipeline'']) (map_of kvs ''pipeline'')) = Valid"
    by (rule zobject_field_status(1) [OF DeploymentManifestSchema_def _ _ v]) (simp_all add: raw)
  with pl have pv: "fst (z_parse H PipelineConfigSchema [Key ''pipeline''] (Some (JObj pkvs))) = Valid"
    by simp
  have "fst (z_parse H PipelineCodeCommitSchema ([Key ''pipeline''] @ [Key ''codecommit''])
              (map_of pkvs ''codecommit'')) = Valid"
    by (rule zobject_field_status(1) [OF PipelineConfigSchema_def _ _ pv]) simp_all
  with cc show ?thesis by simp
qed

text \<open>
  C7. If an override document with a \<^verbatim>\<open>pipeline.codecommit\<close> section validates, then exactly one
  of the two holds: \<^verbatim>\<open>existingRepositoryName\<close> is supplied, or \<^verbatim>\<open>createNew\<close> is supplied as
  \<^verbatim>\<open>true\<close>. So a document that supplies both, and a document that supplies neither, fail
  validation.
\<close>

theorem codecommit_exactly_one:
  assumes "safeParse H DeploymentManifestSchema (Some raw) = Inr m"
    and "lookup raw [''pipeline'', ''codecommit''] = Some cc"
  shows "(lookup cc [''existingRepositoryName''] \<noteq> None)
         \<noteq> (lookup cc [''createNew''] = Some (JBool True))"
  using validated_codecommit [OF assms] by (rule codecommit_valid_exactly_one)

theorem codecommit_exactly_one_witness:
  "safeParse sample_host DeploymentManifestSchema (Some pipeline_override) = Inr (Some pipeline_override)
   \<and> lookup pipeline_override [''pipeline'', ''codecommit'']
       = Some (JObj [(''existingRepositoryName'', JStr ''chatbot-repo''), (''seedOnCreate'', JBool False)])
   \<and> lookup (JObj [(''existingRepositoryName'', JStr ''chatbot-repo''), (''seedOnCreate'', JBool False)])
         [''existingRepositoryName''] \<noteq> None
   \<and> lookup (JObj [(''existingRepositoryName'', JStr ''chatbot-repo''), (''seedOnCreate'', JBool False)])
         [''createNew''] \<noteq> Some (JBool True)
   \<and> isl (safeParse sample_host DeploymentManifestSchema (Some both_repositories_override))
   \<and> isl (safeParse sample_host DeploymentManifestSchema (Some no_repository_override))"
proof -
  have v: "safeParse sample_host DeploymentManifestSchema (Some pipeline_override) = Inr (Some pipeline_override)"
    by code_simp
  have c: "lookup pipeline_override [''pipeline'', ''codecommit'']
       = Some (JObj [(''existingRepositoryName'', JStr ''chatbot-repo''), (''seedOnCreate'', JBool False)])"
    by (simp add: pipeline_override_def)
  have b: "isl (safeParse sample_host DeploymentManifestSchema (Some both_repositories_override))"
    by code_simp
  have n: "isl (safeParse sample_host DeploymentManifestSchema (Some no_repository_override))"
    by code_simp
  from codecommit_exactly_one [OF v c] v c b n show ?thesis by simp
qed

section \<open>The endpoint rule of the VPC group\<close>

lemma optional_string_aborted:
  "(fst (z_parse H (ZOptional (ZString cs)) p d) \<noteq> Aborted) = string_or_absent d"
  by (cases d rule: string_or_absent.cases) (simp_all add: invalid_def Let_def dirty_if_def)

lemma string_aborted: "(fst (z_parse H (ZString cs) p (Some x)) \<noteq> Aborted) = is_string x"
  by (cases x) (simp_all add: invalid_def Let_def dirty_if_def)

lemma not_in_map_iff: "(a \<notin> set (map f ys)) = list_all (\<lambda>y. f y \<noteq> a) ys"
  by (induction ys) auto

lemma string_array_aborted:
  "(fst (z_parse H (ZArray (ZString cs) mn) p (Some (JArr xs))) \<noteq> Aborted) = list_all is_string xs"
proof -
  let ?f = "\<lambda>ix. z_parse H (ZString cs) (p @ [Idx (fst ix)]) (Some (snd ix))"
  let ?own = "case mn of None \<Rightarrow> [] | Some (n, msg) \<Rightarrow> if length xs < n then [mk_issue too_small p msg] else []"
  have st: "fst (z_parse H (ZArray (ZString cs) mn) p (Some (JArr xs)))
      = merge_status (dirty_if ?own) (map (\<lambda>ix. fst (?f ix)) (enumerate 0 xs))"
    by (simp add: merge_array_def Let_def comp_def)
  have own: "dirty_if ?own \<noteq> Aborted" by (simp add: dirty_if_def)
  have "(merge_status (dirty_if ?own) (map (\<lambda>ix. fst (?f ix)) (enumerate 0 xs)) \<noteq> Aborted)
      = list_all (\<lambda>ix. fst (?f ix) \<noteq> Aborted) (enumerate 0 xs)"
    unfolding merge_status_Aborted [OF own] not_in_map_iff ..
  also have "\<dots> = list_all (\<lambda>ix. is_string (snd ix)) (enumerate 0 xs)"
    unfolding string_aborted ..
  also have "\<dots> = list_all is_string (map snd (enumerate 0 xs))"
    by (simp only: list.pred_map comp_def)
  also have "\<dots> = list_all is_string xs" by simp
  finally show ?thesis unfolding st .
qed

lemma optional_string_array_aborted:
  "(fst (z_parse H (ZOptional (ZArray (ZString cs) mn)) p d) \<noteq> Aborted) = strings_or_absent d"
proof (cases d)
  case None
  then show ?thesis by simp
next
  case (Some x)
  show ?thesis
  proof (cases x)
    case (JArr xs)
    with Some string_array_aborted [of H cs mn p xs] show ?thesis
      by (simp del: z_parse.simps(6))
  qed (use Some in \<open>simp_all add: invalid_def\<close>)
qed

lemma vpc_well_typed_not_aborted:
  "(fst (z_parse H VpcConfigObject p (Some (JObj vkvs))) \<noteq> Aborted) = vpc_well_typed (JObj vkvs)"
proof -
  let ?g = "\<lambda>f. fst (z_parse H (snd f) (p @ [Key (fst f)]) (map_of vkvs (fst f)))"
  obtain fs where fs: "VpcConfigObject = ZObject fs" by (simp add: VpcConfigObject_def)
  have st: "fst (z_parse H VpcConfigObject p (Some (JObj vkvs))) = merge_status Valid (map ?g fs)"
    unfolding fs by (simp add: merge_object_def Let_def comp_def)
  have "(merge_status Valid (map ?g fs) \<noteq> Aborted) = list_all (\<lambda>f. ?g f \<noteq> Aborted) fs"
    unfolding merge_status_Aborted [of Valid, simplified] not_in_map_iff ..
  also have "\<dots> = vpc_well_typed (JObj vkvs)"
    using fs
    by (auto simp: VpcConfigObject_def vpc_well_typed_def
          optional_string_aborted optional_string_array_aborted
          simp del: z_parse.simps)
  finally show ?thesis unfolding st .
qed

lemma safeParse_Inl:
  "fst (z_parse H t [] d) \<noteq> Valid \<Longrightarrow> safeParse H t d = Inl (snd (snd (z_parse H t [] d)))"
  by (cases "z_parse H t [] d"; cases "fst (z_parse H t [] d)") (auto simp: safeParse_def)

lemma string_array_value_nonempty:
  assumes "fst (z_parse H (ZArray (ZString cs) mn) p (Some (JArr (x # xs)))) \<noteq> Aborted"
  shows "nonempty_list (fst (snd (z_parse H (ZArray (ZString cs) mn) p (Some (JArr (x # xs))))))"
proof -
  from assms have "list_all is_string (x # xs)" by (simp only: string_array_aborted)
  then obtain s where x: "x = JStr s" by (cases x) auto
  have e: "enumerate 0 (x # xs) = (0, x) # enumerate 1 xs" by (simp add: enumerate_simps)
  from assms show ?thesis
    unfolding z_parse.simps(6) option.case json.case e list.map merge_array_def Let_def
    by (simp add: x Let_def split: if_splits)
qed

lemma vpc_rule_fails:
  assumes na: "fst (z_parse H VpcConfigObject p (Some (JObj vkvs))) \<noteq> Aborted"
    and ips: "map_of vkvs ''s3VpcEndpointIps'' = Some (JArr (x # xs))"
    and id: "map_of vkvs ''s3VpcEndpointId'' = None"
  shows "\<not> vpc_endpoint_rule (fst (snd (z_parse H VpcConfigObject p (Some (JObj vkvs)))))"
proof -
  have dist: "\<And>fs. VpcConfigObject = ZObject fs \<Longrightarrow> distinct (map fst fs)"
    by (auto simp: VpcConfigObject_def)
  note fv = zobject_field_value [OF VpcConfigObject_def refl na dist [OF VpcConfigObject_def]]
  have ipna: "fst (z_parse H (ZOptional (ZArray (ZString [Regex re_ip (Msg ''Invalid IP address format. Expected: x.x.x.x'')]) None))
          (p @ [Key ''s3VpcEndpointIps'']) (map_of vkvs ''s3VpcEndpointIps'')) \<noteq> Aborted"
    by (rule zobject_field_status(2) [OF VpcConfigObject_def refl _ na]) simp
  then have "nonempty_list (fst (snd (z_parse H (ZArray (ZString [Regex re_ip (Msg ''Invalid IP address format. Expected: x.x.x.x'')]) None)
          (p @ [Key ''s3VpcEndpointIps'']) (Some (JArr (x # xs))))))"
    using ips string_array_value_nonempty by (simp del: z_parse.simps(6))
  then have a: "nonempty_list (field (fst (snd (z_parse H VpcConfigObject p (Some (JObj vkvs))))) ''s3VpcEndpointIps'')"
    using fv [of "''s3VpcEndpointIps''"] ips by (simp del: z_parse.simps(6))
  have b: "field (fst (snd (z_parse H VpcConfigObject p (Some (JObj vkvs))))) ''s3VpcEndpointId'' = None"
    using fv [of "''s3VpcEndpointId''"] id by simp
  from a b show ?thesis by (simp add: vpc_endpoint_rule_def)
qed

lemma vpc_rule_reported:
  assumes na: "fst (z_parse H VpcConfigObject [Key ''vpc''] (Some (JObj vkvs))) \<noteq> Aborted"
    and ips: "map_of vkvs ''s3VpcEndpointIps'' = Some (JArr (x # xs))"
    and id: "map_of vkvs ''s3VpcEndpointId'' = None"
  shows "endpoint_id_required \<in> set (snd (snd (z_parse H VpcConfigSchema [Key ''vpc''] (Some (JObj vkvs)))))"
  using vpc_rule_fails [OF assms] na
  by (cases "z_parse H VpcConfigObject [Key ''vpc''] (Some (JObj vkvs))";
      cases "fst (z_parse H VpcConfigObject [Key ''vpc''] (Some (JObj vkvs)))")
     (auto simp: VpcConfigSchema_def endpoint_id_required_def mk_issue_def)

lemma vpc_never_valid:
  assumes ips: "map_of vkvs ''s3VpcEndpointIps'' = Some (JArr (x # xs))"
    and id: "map_of vkvs ''s3VpcEndpointId'' = None"
  shows "fst (z_parse H VpcConfigSchema p (Some (JObj vkvs))) \<noteq> Valid"
proof
  assume v: "fst (z_parse H VpcConfigSchema p (Some (JObj vkvs))) = Valid"
  from zrefine_Valid(1,2) [OF VpcConfigSchema_def v]
  have iv: "fst (z_parse H VpcConfigObject p (Some (JObj vkvs))) = Valid"
    and r: "vpc_endpoint_rule (fst (snd (z_parse H VpcConfigObject p (Some (JObj vkvs)))))" .
  from iv have "fst (z_parse H VpcConfigObject p (Some (JObj vkvs))) \<noteq> Aborted" by simp
  from vpc_rule_fails [OF this ips id] r show False by simp
qed

lemma vpc_errors_in_document:
  assumes "map_of kvs ''vpc'' = Some vpc"
  shows "set (snd (snd (z_parse H VpcConfigSchema [Key ''vpc''] (Some vpc))))
         \<subseteq> set (validation_errors H (Some (JObj kvs)))"
proof -
  obtain fs where fs: "DeploymentManifestSchema = ZObject fs" by (simp add: DeploymentManifestSchema_def)
  have mem: "(''vpc'', ZOptional VpcConfigSchema) \<in> set fs"
    using fs by (auto simp: DeploymentManifestSchema_def)
  have "validation_errors H (Some (JObj kvs))
        = concat (map (\<lambda>f. snd (snd (z_parse H (snd f) ([] @ [Key (fst f)]) (map_of kvs (fst f))))) fs)"
    unfolding validation_errors_def by (rule zobject_issues [OF fs refl])
  moreover have "snd (snd (z_parse H VpcConfigSchema [Key ''vpc''] (Some vpc)))
      = (\<lambda>f. snd (snd (z_parse H (snd f) ([] @ [Key (fst f)]) (map_of kvs (fst f))))) (''vpc'', ZOptional VpcConfigSchema)"
    using assms by simp
  ultimately show ?thesis using mem by (simp only: set_concat set_map) blast
qed

lemma vpc_document_fails:
  assumes "map_of kvs ''vpc'' = Some (JObj vkvs)"
    and ips: "map_of vkvs ''s3VpcEndpointIps'' = Some (JArr (x # xs))"
    and id: "map_of vkvs ''s3VpcEndpointId'' = None"
  shows "fst (z_parse H DeploymentManifestSchema [] (Some (JObj kvs))) \<noteq> Valid"
proof
  assume v: "fst (z_parse H DeploymentManifestSchema [] (Some (JObj kvs))) = Valid"
  have "fst (z_parse H (ZOptional VpcConfigSchema) ([] @ [Key ''vpc'']) (map_of kvs ''vpc'')) = Valid"
    by (rule zobject_field_status(1) [OF DeploymentManifestSchema_def refl _ v]) simp
  with assms(1) have "fst (z_parse H VpcConfigSchema [Key ''vpc''] (Some (JObj vkvs))) = Valid" by simp
  with vpc_never_valid [OF ips id] show False by blast
qed

lemma vpc_rule_silent:
  assumes "field (Some vpc) ''s3VpcEndpointIps'' = None"
  shows "snd (snd (z_parse H VpcConfigSchema p (Some vpc))) = snd (snd (z_parse H VpcConfigObject p (Some vpc)))"
proof (cases "fst (z_parse H VpcConfigObject p (Some vpc)) = Aborted")
  case True
  then show ?thesis
    by (cases "z_parse H VpcConfigObject p (Some vpc)") (simp add: VpcConfigSchema_def)
next
  case False
  from zobject_not_aborted [OF VpcConfigObject_def False] obtain vkvs where vpc: "vpc = JObj vkvs" by auto
  have dist: "\<And>fs. VpcConfigObject = ZObject fs \<Longrightarrow> distinct (map fst fs)"
    by (auto simp: VpcConfigObject_def)
  from zobject_field_value [OF VpcConfigObject_def _ False dist [OF VpcConfigObject_def], of vkvs "''s3VpcEndpointIps''"]
    assms vpc
  have "field (fst (snd (z_parse H VpcConfigObject p (Some vpc)))) ''s3VpcEndpointIps'' = None"
    by simp
  then have "vpc_endpoint_rule (fst (snd (z_parse H VpcConfigObject p (Some vpc))))"
    by (simp add: vpc_endpoint_rule_def)
  then show ?thesis
    by (cases "z_parse H VpcConfigObject p (Some vpc)"; cases "fst (z_parse H VpcConfigObject p (Some vpc))")
       (auto simp: VpcConfigSchema_def)
qed

text \<open>
  C6, as amended. If the \<^verbatim>\<open>vpc\<close> group of an override document has a non-empty
  \<^verbatim>\<open>s3VpcEndpointIps\<close> list and no \<^verbatim>\<open>s3VpcEndpointId\<close>, validation fails; and if moreover every
  member of the group has its declared primitive type, the error list contains the error
  of path \<^verbatim>\<open>vpc.s3VpcEndpointId\<close>. The rule is one-sided: a group without
  \<^verbatim>\<open>s3VpcEndpointIps\<close> reports exactly the errors of its members, whether or not it has an
  \<^verbatim>\<open>s3VpcEndpointId\<close>.
\<close>

theorem endpoint_ips_require_endpoint_id:
  assumes "field (Some raw) ''vpc'' = Some vpc"
    and "field (Some vpc) ''s3VpcEndpointIps'' = Some (JArr (x # xs))"
    and "field (Some vpc) ''s3VpcEndpointId'' = None"
  shows "safeParse H DeploymentManifestSchema (Some raw) = Inl (validation_errors H (Some raw))
       \<and> (vpc_well_typed vpc \<longrightarrow> endpoint_id_required \<in> set (validation_errors H (Some raw)))
       \<and> (\<forall>other p. field (Some other) ''s3VpcEndpointIps'' = None \<longrightarrow>
             snd (snd (z_parse H VpcConfigSchema p (Some other)))
             = snd (snd (z_parse H VpcConfigObject p (Some other))))"
proof -
  from assms(1) obtain kvs where raw: "raw = JObj kvs" by (cases raw) auto
  from assms(2) obtain vkvs where vpc: "vpc = JObj vkvs" by (cases vpc) auto
  from assms raw vpc have kv: "map_of kvs ''vpc'' = Some (JObj vkvs)"
    and ips: "map_of vkvs ''s3VpcEndpointIps'' = Some (JArr (x # xs))"
    and id: "map_of vkvs ''s3VpcEndpointId'' = None" by simp_all
  have fails: "safeParse H DeploymentManifestSchema (Some raw) = Inl (validation_errors H (Some raw))"
    unfolding validation_errors_def raw
    by (rule safeParse_Inl) (rule vpc_document_fails [OF kv ips id])
  have reported: "endpoint_id_required \<in> set (validation_errors H (Some raw))" if "vpc_well_typed vpc"
  proof -
    from that vpc have "fst (z_parse H VpcConfigObject [Key ''vpc''] (Some (JObj vkvs))) \<noteq> Aborted"
      by (simp only: vpc_well_typed_not_aborted)
    from vpc_rule_reported [OF this ips id] vpc_errors_in_document [OF kv, of H] raw
    show ?thesis by blast
  qed
  from fails reported vpc_rule_silent show ?thesis by blast
qed

theorem endpoint_ips_require_endpoint_id_witness:
  "field (Some ips_without_id_override) ''vpc'' = Some (JObj [(''s3VpcEndpointIps'', JArr [JStr ''10.0.1.5''])])
   \<and> vpc_well_typed (JObj [(''s3VpcEndpointIps'', JArr [JStr ''10.0.1.5''])])
   \<and> safeParse sample_host DeploymentManifestSchema (Some ips_without_id_override) = Inl [endpoint_id_required]
   \<and> field (Some (JObj [(''s3VpcEndpointId'', JStr ''vpce-0a1b2c3d'')])) ''s3VpcEndpointIps'' = None
   \<and> safeParse sample_host DeploymentManifestSchema (Some id_without_ips_override)
       = Inr (Some id_without_ips_override)"
proof -
  let ?vpc = "JObj [(''s3VpcEndpointIps'', JArr [JStr ''10.0.1.5''])]"
  have a: "field (Some ips_without_id_override) ''vpc'' = Some ?vpc"
    by (simp add: ips_without_id_override_def)
  have b: "field (Some ?vpc) ''s3VpcEndpointIps'' = Some (JArr (JStr ''10.0.1.5'' # []))" by simp
  have c: "field (Some ?vpc) ''s3VpcEndpointId'' = None" by simp
  have t: "vpc_well_typed ?vpc" by (simp add: vpc_well_typed_def)
  have e: "validation_errors sample_host (Some ips_without_id_override) = [endpoint_id_required]"
    by code_simp
  have d: "field (Some (JObj [(''s3VpcEndpointId'', JStr ''vpce-0a1b2c3d'')])) ''s3VpcEndpointIps'' = None"
    by simp
  have v: "safeParse sample_host DeploymentManifestSchema (Some id_without_ips_override)
       = Inr (Some id_without_ips_override)"
    by code_simp
  from endpoint_ips_require_endpoint_id [OF a b c, of sample_host] a t e d v show ?thesis by simp
qed

theorem endpoint_ips_counterexample:
  "field (Some ill_typed_vpc_override) ''vpc''
     = Some (JObj [(''vpcId'', JNum 5), (''s3VpcEndpointIps'', JArr [JStr ''10.0.1.5''])])
   \<and> field (Some (JObj [(''vpcId'', JNum 5), (''s3VpcEndpointIps'', JArr [JStr ''10.0.1.5''])]))
        ''s3VpcEndpointIps'' = Some (JArr [JStr ''10.0.1.5''])
   \<and> field (Some (JObj [(''vpcId'', JNum 5), (''s3VpcEndpointIps'', JArr [JStr ''10.0.1.5''])]))
        ''s3VpcEndpointId'' = None
   \<and> safeParse sample_host DeploymentManifestSchema (Some ill_typed_vpc_override)
       = Inl [\<lparr>code = invalid_type, ipath = [Key ''vpc'', Key ''vpcId''], message = DefaultMsg\<rparr>]"
  by code_simp

section \<open>Collecting the errors\<close>

text \<open>
  C1, as amended. Count the violated constraints of an override document as \<open>violations\<close>
  does: a value of the wrong primitive type, outside its enumeration, different from its
  literal, or satisfying no alternative of a union counts once; on a value of the right type
  every failed check (minimum, maximum or exact length, pattern, URL, e-mail, positivity)
  counts once; a violated cross-field refinement counts once, provided the group it belongs to
  is not ill-typed, that is, no member of the group has the wrong type, a value outside its
  enumeration, another literal than the declared one, or a value that is ill-typed for every
  alternative of a union. Then the reported error list has at
  least that many entries, and validation fails, returning that list, when the count is
  positive. The refinement of an ill-typed group is not evaluated: refining a type adds no
  entry to the errors of an ill-typed value.
\<close>

theorem validation_collects_violations:
  "violations H DeploymentManifestSchema d \<le> length (validation_errors H d)
   \<and> (0 < violations H DeploymentManifestSchema d
        \<longrightarrow> safeParse H DeploymentManifestSchema d = Inl (validation_errors H d))
   \<and> (ill_typed t g
        \<longrightarrow> snd (snd (z_parse H (ZRefine t chk msg rp) p g)) = snd (snd (z_parse H t p g)))"
proof (intro conjI impI)
  show le: "violations H DeploymentManifestSchema d \<le> length (validation_errors H d)"
    unfolding validation_errors_def by (rule violations_le_issues [OF schema_plain_unions])
  assume "0 < violations H DeploymentManifestSchema d"
  with le have "validation_errors H d \<noteq> []" by auto
  then have "fst (z_parse H DeploymentManifestSchema [] d) \<noteq> Valid"
    unfolding validation_errors_def by (simp only: z_parse_honest) simp
  then show "safeParse H DeploymentManifestSchema d = Inl (validation_errors H d)"
    unfolding validation_errors_def by (rule safeParse_Inl)
next
  assume "ill_typed t g"
  then show "snd (snd (z_parse H (ZRefine t chk msg rp) p g)) = snd (snd (z_parse H t p g))"
    by (rule refinement_skipped)
qed

theorem validation_collects_violations_witness:
  "violations sample_host DeploymentManifestSchema (Some many_errors_override) = 5
   \<and> length (validation_errors sample_host (Some many_errors_override)) = 5
   \<and> isl (safeParse sample_host DeploymentManifestSchema (Some many_errors_override))
   \<and> ill_typed VpcConfigObject (lookup ill_typed_vpc_override [''vpc''])
   \<and> \<not> vpc_endpoint_rule (lookup ill_typed_vpc_override [''vpc''])
   \<and> snd (snd (z_parse sample_host VpcConfigSchema [Key ''vpc''] (lookup ill_typed_vpc_override [''vpc''])))
       = snd (snd (z_parse sample_host VpcConfigObject [Key ''vpc''] (lookup ill_typed_vpc_override [''vpc''])))"
proof -
  have n: "violations sample_host DeploymentManifestSchema (Some many_errors_override) = 5"
    by code_simp
  have l: "length (validation_errors sample_host (Some many_errors_override)) = 5"
    by code_simp
  have i: "ill_typed VpcConfigObject (lookup ill_typed_vpc_override [''vpc''])"
    by code_simp
  have r: "\<not> vpc_endpoint_rule (lookup ill_typed_vpc_override [''vpc''])"
    by code_simp
  from validation_collects_violations
         [of sample_host "Some many_errors_override" VpcConfigObject
             "lookup ill_typed_vpc_override [''vpc'']"]
       n l i r
  show ?thesis by (simp add: VpcConfigSchema_def)
qed

theorem validation_collects_violations_counterexample:
  "lookup ill_typed_vpc_override [''vpc'', ''vpcId''] = Some (JNum 5)
   \<and> \<not> vpc_endpoint_rule (lookup ill_typed_vpc_override [''vpc''])
   \<and> length (validation_errors sample_host (Some ill_typed_vpc_override)) = 1"
  by code_simp

section \<open>Paths that the override omits\<close>

text \<open>
  For a path \<open>q\<close> that the override does not hold, every block of the merge leaves the value at
  \<open>q\<close> alone: an assignment \<open>Ovr w\<close> either misses \<open>q\<close> or is not performed, because \<open>w\<close> lies
  below \<open>q\<close> and is then omitted as well; a group is created empty; a block under a test of the
  override whose path lies above \<open>q\<close> is not entered.
\<close>

lemma not_prefix_indep:
  "\<not> prefix q w \<Longrightarrow> \<not> strict_prefix w q \<Longrightarrow> indep w q"
  by (auto simp: indep_iff strict_prefix_def)

lemma ovr_ok:
  "lookup m q = None \<Longrightarrow> \<not> strict_prefix w q \<Longrightarrow> fsafe m q gps (Ovr w)"
  using lookup_prefix_None [of m q w] not_prefix_indep [of q w] by auto

lemma ovr_nonempty_ok:
  "lookup m q = None \<Longrightarrow> \<not> strict_prefix w q \<Longrightarrow> fsafe m q gps (OvrNonEmpty w)"
  using lookup_prefix_None [of m q w] not_prefix_indep [of q w] by auto

lemma lookup_empty_object: "r \<noteq> [] \<Longrightarrow> lookup (JObj []) r = None"
  by (cases r) auto

lemma init_ok:
  assumes "\<not> prefix q p" "strict_prefix p q \<Longrightarrow> lookup d (drop (length p) q) = None"
  shows "fsafe m q gps (Init p d)"
  using assms not_prefix_indep [of q p] by auto

lemma init_empty_ok:
  assumes "\<not> prefix q p"
  shows "fsafe m q gps (Init p (JObj []))"
proof (rule init_ok [OF assms])
  assume "strict_prefix p q"
  then have "drop (length p) q \<noteq> []" by (auto simp: strict_prefix_def prefix_def)
  then show "lookup (JObj []) (drop (length p) q) = None" by (rule lookup_empty_object)
qed

lemma when_ok:
  assumes "lookup m q = None"
    and "\<not> prefix q (guard_path g) \<Longrightarrow> list_all (fsafe m q (guard_path g # gps)) body"
  shows "fsafe m q gps (When g body)"
proof (cases "prefix q (guard_path g)")
  case True
  with assms(1) have "lookup m (guard_path g) = None" by (rule lookup_prefix_None)
  then show ?thesis by simp
next
  case False
  with assms(2) show ?thesis by simp
qed

lemma field_path_leaves:
  assumes "field_path q"
  shows "list_all (\<lambda>p. \<not> strict_prefix p q) (scalar_fields @ list_fields)"
  using assms by (simp add: field_path_def list_all_iff)

lemma root_ok:
  assumes "lookup m q = None" "field_path q"
  shows "list_all (fsafe m q [])
     [Ovr [''prefix''], Ovr [''enableWaf''], Ovr [''createCMKs''], Ovr [''advancedMonitoring''],
      Ovr [''disableS3AccessLogs''], OvrNonEmpty [''logArchiveBucketName''], Ovr [''privateWebsite''],
      Ovr [''certificate''], Ovr [''domain'']]"
  using assms(1) field_path_leaves [OF assms(2)]
  by (simp add: scalar_fields_def list_fields_def ovr_ok ovr_nonempty_ok del: fsafe.simps)

lemma vpc_ok:
  assumes "lookup m q = None" "field_path q"
  shows "fsafe m q [] (When (Present [''vpc'']) vpc_steps)"
proof (rule when_ok [OF assms(1)])
  assume "\<not> prefix q (guard_path (Present [''vpc'']))"
  then have np: "\<not> prefix q [''vpc'']" by simp
  from assms(1) field_path_leaves [OF assms(2)] np
  show "list_all (fsafe m q [guard_path (Present [''vpc''])]) vpc_steps"
    by (simp add: vpc_steps_def scalar_fields_def list_fields_def ovr_ok init_empty_ok del: fsafe.simps)
qed

lemma saml_ok:
  assumes "lookup m q = None" "field_path q"
  shows "fsafe m q gps (When (Present [''cognitoFederation'', ''customSAML''])
           [Init [''cognitoFederation'', ''customSAML''] (JObj []),
            Ovr [''cognitoFederation'', ''customSAML'', ''metadataDocumentUrl'']])"
proof (rule when_ok [OF assms(1)])
  assume "\<not> prefix q (guard_path (Present [''cognitoFederation'', ''customSAML'']))"
  then have np: "\<not> prefix q [''cognitoFederation'', ''customSAML'']" by simp
  from assms(1) field_path_leaves [OF assms(2)] np
  show "list_all (fsafe m q (guard_path (Present [''cognitoFederation'', ''customSAML'']) # gps))
          [Init [''cognitoFederation'', ''customSAML''] (JObj []),
           Ovr [''cognitoFederation'', ''customSAML'', ''metadataDocumentUrl'']]"
    by (simp add: scalar_fields_def list_fields_def ovr_ok init_empty_ok del: fsafe.simps)
qed

lemma oidc_ok:
  assumes "lookup m q = None" "field_path q"
  shows "fsafe m q gps (When (Present [''cognitoFederation'', ''customOIDC''])
           [Init [''cognitoFederation'', ''customOIDC''] (JObj []),
            Ovr [''cognitoFederation'', ''customOIDC'', ''OIDCClient''],
            Ovr [''cognitoFederation'', ''customOIDC'', ''OIDCSecret''],
            Ovr [''cognitoFederation'', ''customOIDC'', ''OIDCIssuerURL'']])"
proof (rule when_ok [OF assms(1)])
  assume "\<not> prefix q (guard_path (Present [''cognitoFederation'', ''customOIDC'']))"
  then have np: "\<not> prefix q [''cognitoFederation'', ''customOIDC'']" by simp
  from assms(1) field_path_leaves [OF assms(2)] np
  show "list_all (fsafe m q (guard_path (Present [''cognitoFederation'', ''customOIDC'']) # gps))
          [Init [''cognitoFederation'', ''customOIDC''] (JObj []),
           Ovr [''cognitoFederation'', ''customOIDC'', ''OIDCClient''],
           Ovr [''cognitoFederation'', ''customOIDC'', ''OIDCSecret''],
           Ovr [''cognitoFederation'', ''customOIDC'', ''OIDCIssuerURL'']]"
    by (simp add: scalar_fields_def list_fields_def ovr_ok init_empty_ok del: fsafe.simps)
qed

lemma cognito_ok:
  assumes "lookup m q = None" "field_path q"
  shows "fsafe m q [] (When (Present [''cognitoFederation'']) cognito_steps)"
proof (rule when_ok [OF assms(1)])
  assume "\<not> prefix q (guard_path (Present [''cognitoFederation'']))"
  then have np: "\<not> prefix q [''cognitoFederation'']" by simp
  from assms(1) field_path_leaves [OF assms(2)] np
  show "list_all (fsafe m q [guard_path (Present [''cognitoFederation''])]) cognito_steps"
    by (simp add: cognito_steps_def scalar_fields_def list_fields_def ovr_ok init_empty_ok
          saml_ok [OF assms] oidc_ok [OF assms] del: fsafe.simps)
qed

lemma ovr_list_ok:
  assumes "lookup m q = None" "list_all (\<lambda>w. \<not> strict_prefix w q) ws"
  shows "list_all (fsafe m q gps) (map Ovr ws)"
  using assms by (induction ws) (simp_all add: ovr_ok del: fsafe.simps)

lemma when_ovr_ok:
  assumes "lookup m q = None" "list_all (\<lambda>w. \<not> strict_prefix w q) ws"
  shows "fsafe m q gps (When g (map Ovr ws))"
  by (rule when_ok [OF assms(1)]) (rule ovr_list_ok [OF assms])

lemma engines_ok:
  assumes "lookup m q = None" "field_path q"
  shows "fsafe m q gps (When (Present [''rag'', ''engines''])
           [When (Present [''rag'', ''engines'', ''opensearch''])
              [Ovr [''rag'', ''engines'', ''opensearch'', ''enabled'']],
            When (Present [''rag'', ''engines'', ''knowledgeBase''])
              [Ovr [''rag'', ''engines'', ''knowledgeBase'', ''enabled''],
               Ovr [''rag'', ''engines'', ''knowledgeBase'', ''external'']]])"
proof (rule when_ok [OF assms(1)])
  let ?gps = "guard_path (Present [''rag'', ''engines'']) # gps"
  from field_path_leaves [OF assms(2)]
  have a: "list_all (\<lambda>w. \<not> strict_prefix w q) [[''rag'', ''engines'', ''opensearch'', ''enabled'']]"
    and b: "list_all (\<lambda>w. \<not> strict_prefix w q)
              [[''rag'', ''engines'', ''knowledgeBase'', ''enabled''],
               [''rag'', ''engines'', ''knowledgeBase'', ''external'']]"
    by (simp_all add: scalar_fields_def list_fields_def)
  from when_ovr_ok [OF assms(1) a, of ?gps "Present [''rag'', ''engines'', ''opensearch'']"]
       when_ovr_ok [OF assms(1) b, of ?gps "Present [''rag'', ''engines'', ''knowledgeBase'']"]
  show "list_all (fsafe m q ?gps)
          [When (Present [''rag'', ''engines'', ''opensearch''])
              [Ovr [''rag'', ''engines'', ''opensearch'', ''enabled'']],
            When (Present [''rag'', ''engines'', ''knowledgeBase''])
              [Ovr [''rag'', ''engines'', ''knowledgeBase'', ''enabled''],
               Ovr [''rag'', ''engines'', ''knowledgeBase'', ''external'']]]"
    by (simp del: fsafe.simps)
qed

lemma rag_ok:
  assumes "lookup m q = None" "field_path q"
  shows "fsafe m q [] (When (Present [''rag'']) rag_steps)"
proof (rule when_ok [OF assms(1)])
  from assms(1) field_path_leaves [OF assms(2)]
  show "list_all (fsafe m q [guard_path (Present [''rag''])]) rag_steps"
    by (simp add: rag_steps_def scalar_fields_def list_fields_def ovr_ok engines_ok [OF assms]
          del: fsafe.simps)
qed

lemma pipeline_ok:
  assumes "lookup m q = None" "lookup m [''pipeline''] = None \<or> \<not> strict_prefix [''pipeline''] q"
  shows "fsafe m q [] (When (Present [''pipeline'']) [ReplacePipeline])"
proof (cases "lookup m [''pipeline''] = None")
  case True
  then show ?thesis by simp
next
  case False
  with assms(2) have ns: "\<not> strict_prefix [''pipeline''] q" by simp
  show ?thesis
  proof (rule when_ok [OF assms(1)])
    assume "\<not> prefix q (guard_path (Present [''pipeline'']))"
    then have "\<not> prefix q [''pipeline'']" by simp
    from not_prefix_indep [OF this ns]
    show "list_all (fsafe m q [guard_path (Present [''pipeline''])]) [ReplacePipeline]" by simp
  qed
qed

lemma default_below:
  assumes "strict_prefix [''bedrock'', ''guardrails''] q" "q \<notin> set guardrails_members"
  shows "lookup guardrails_default (drop (length [''bedrock'', ''guardrails'']) q) = None"
proof -
  from assms(1) obtain k r where q: "q = [''bedrock'', ''guardrails''] @ (k # r)"
    by (cases "drop 2 q") (auto simp: strict_prefix_def prefix_def)
  from assms(2) q have "\<not> (k \<in> {''enabled'', ''identifier'', ''version''} \<and> r = [])"
    by (auto simp: guardrails_members_def)
  then show ?thesis
    unfolding q by (cases r) (auto simp: guardrails_default_def)
qed

lemma guardrails_ok:
  assumes "lookup m q = None" "field_path q"
    and "lookup m [''bedrock'', ''guardrails''] = None \<or> q \<notin> set guardrails_members"
  shows "fsafe m q [] (When (PresentChained [''bedrock''] ''guardrails'') guardrails_steps)"
proof (cases "lookup m [''bedrock'', ''guardrails''] = None")
  case True
  then show ?thesis by simp
next
  case False
  with assms(3) have nm: "q \<notin> set guardrails_members" by simp
  show ?thesis
  proof (rule when_ok [OF assms(1)])
    assume "\<not> prefix q (guard_path (PresentChained [''bedrock''] ''guardrails''))"
    then have np: "\<not> prefix q [''bedrock'', ''guardrails'']" by simp
    have "prefix [''bedrock''] [''bedrock'', ''guardrails'']" by simp
    with np have np1: "\<not> prefix q [''bedrock'']" using prefix_order.trans by blast
    have i1: "fsafe m q [[''bedrock'', ''guardrails'']] (Init [''bedrock''] (JObj []))"
      by (rule init_empty_ok [OF np1])
    have i2: "fsafe m q [[''bedrock'', ''guardrails'']] (Init [''bedrock'', ''guardrails''] guardrails_default)"
      by (rule init_ok [OF np]) (rule default_below [OF _ nm])
    from assms(1) field_path_leaves [OF assms(2)] i1 i2
    show "list_all (fsafe m q [guard_path (PresentChained [''bedrock''] ''guardrails'')]) guardrails_steps"
      by (simp add: guardrails_steps_def scalar_fields_def list_fields_def ovr_ok del: fsafe.simps)
  qed
qed

lemma all_steps_ok:
  assumes "lookup m q = None" "field_path q"
    and "lookup m [''pipeline''] = None \<or> \<not> strict_prefix [''pipeline''] q"
    and "lookup m [''bedrock'', ''guardrails''] = None \<or> q \<notin> set guardrails_members"
  shows "list_all (fsafe m q []) override_steps"
  using root_ok [OF assms(1,2)] vpc_ok [OF assms(1,2)] cognito_ok [OF assms(1,2)]
    guardrails_ok [OF assms(1,2,4)] rag_ok [OF assms(1,2)] pipeline_ok [OF assms(1,3)]
  by (simp add: override_steps_def del: fsafe.simps)

lemma member_quiet:
  assumes "q \<in> set guardrails_members" "lookup m q = None"
  shows "list_all (quiet m q) override_steps"
  using assms unfolding guardrails_members_def
  by (auto simp: override_steps_def vpc_steps_def cognito_steps_def guardrails_steps_def rag_steps_def)

lemma omitted_kept:
  assumes run: "applyManifestOverrides b m = Inr (cfg, log)"
    and omitted: "lookup m q = None"
    and fp: "field_path q"
    and pl: "lookup m [''pipeline''] = None \<or> \<not> strict_prefix [''pipeline''] q"
    and gr: "q \<in> set guardrails_members
             \<longrightarrow> lookup m [''bedrock'', ''guardrails''] = None \<or> lookup b q \<noteq> None"
  shows "lookup cfg q = lookup b q \<and> filter (\<lambda>c. cpath c = q) log = []"
proof -
  from apply_run [OF run] obtain s where
    ex: "exec_list m override_steps \<lparr>config = b, changes = [], overrideCount = 0\<rparr> = Inr s"
    and cfg: "cfg = config s" and log: "log = changes s" by blast
  show ?thesis
  proof (cases "lookup m [''bedrock'', ''guardrails''] = None \<or> q \<notin> set guardrails_members")
    case True
    from all_steps_ok [OF omitted fp pl True] have "list_all (fsafe m q []) override_steps" .
    from fsafe_frame(2) [OF this _ ex] cfg log show ?thesis by (simp add: recs_def)
  next
    case False
    then have mem: "q \<in> set guardrails_members" by simp
    with False gr obtain v where v: "lookup b q = Some v" by auto
    from member_quiet [OF mem omitted] have "list_all (quiet m q) override_steps" .
    from quiet_keeps(2) [OF this ex, of v] v cfg log show ?thesis by (simp add: recs_def)
  qed
qed

text \<open>
  C3, as amended. Whenever the merge returns, a path that the override document omits holds in
  the resolved configuration the value it has in the base configuration - whether that value is
  a scalar, a list, a nested group or \<^verbatim>\<open>undefined\<close> - under three conditions on the path: it does
  not lead into the value of a field that the merge assigns as a whole; it does not lie inside
  the pipeline group when the override has a pipeline group, which replaces the base's
  group with all its members; and it is not a member of \<^verbatim>\<open>bedrock.guardrails\<close> that is missing
  from the base while the override has a guardrails group, for then the member is created with
  its default.
\<close>

theorem omitted_field_keeps_base_value:
  assumes "applyManifestOverrides baseConfig manifest = Inr (cfg, log)"
    and "lookup manifest q = None"
    and "field_path q"
    and "lookup manifest [''pipeline''] = None \<or> \<not> strict_prefix [''pipeline''] q"
    and "q \<in> set guardrails_members
         \<longrightarrow> lookup manifest [''bedrock'', ''guardrails''] = None \<or> lookup baseConfig q \<noteq> None"
  shows "lookup cfg q = lookup baseConfig q"
  using omitted_kept [OF assms] by simp

theorem omitted_field_keeps_base_value_witness:
  "lookup one_model_override [''rag'', ''engines''] = None
   \<and> field_path [''rag'', ''engines'']
   \<and> lookup one_model_override [''pipeline''] = None
   \<and> [''rag'', ''engines''] \<notin> set guardrails_members
   \<and> config_at (applyManifestOverrides sample_base one_model_override) [''rag'', ''engines'']
       = lookup sample_base [''rag'', ''engines'']
   \<and> lookup sample_base [''rag'', ''engines'']
       = Some (JObj [(''aurora'', JObj [(''enabled'', JBool False)]),
                     (''opensearch'', JObj [(''enabled'', JBool True)]),
                     (''knowledgeBase'', JObj [(''enabled'', JBool False), (''external'', JArr [])])])"
proof -
  let ?q = "[''rag'', ''engines'']"
  have "\<not> isl (applyManifestOverrides sample_base one_model_override)" by code_simp
  then obtain cfg log where run: "applyManifestOverrides sample_base one_model_override = Inr (cfg, log)"
    by (cases "applyManifestOverrides sample_base one_model_override") auto
  have om: "lookup one_model_override ?q = None" by (simp add: one_model_override_def)
  have fp: "field_path ?q" by (simp add: field_path_def scalar_fields_def list_fields_def)
  have pl: "lookup one_model_override [''pipeline''] = None" by (simp add: one_model_override_def)
  have gm: "?q \<notin> set guardrails_members" by (simp add: guardrails_members_def)
  have b: "lookup sample_base ?q
       = Some (JObj [(''aurora'', JObj [(''enabled'', JBool False)]),
                     (''opensearch'', JObj [(''enabled'', JBool True)]),
                     (''knowledgeBase'', JObj [(''enabled'', JBool False), (''external'', JArr [])])])"
    by (simp add: sample_base_def)
  from omitted_field_keeps_base_value [OF run om fp] pl gm run om fp b show ?thesis
    by (simp add: config_at_def)
qed

theorem omitted_field_counterexample:
  "validateManifest sample_host (Some pipeline_override) = Inr (Some pipeline_override)
   \<and> \<not> isl (applyManifestOverrides pipeline_base pipeline_override)
   \<and> lookup pipeline_override [''pipeline'', ''notificationEmail''] = None
   \<and> lookup pipeline_base [''pipeline'', ''notificationEmail''] = Some (JStr ''ops@example.com'')
   \<and> config_at (applyManifestOverrides pipeline_base pipeline_override)
         [''pipeline'', ''notificationEmail''] = None
   \<and> validateManifest sample_host (Some guardrails_override) = Inr (Some guardrails_override)
   \<and> lookup guardrails_override [''bedrock'', ''guardrails'', ''identifier''] = None
   \<and> lookup pipeline_base [''bedrock'', ''guardrails'', ''identifier''] = None
   \<and> config_at (applyManifestOverrides pipeline_base guardrails_override)
         [''bedrock'', ''guardrails'', ''identifier''] = Some (JStr [])"
  by code_simp

section \<open>Nested groups\<close>





















end
